theory Spec2Isabelle
  imports Main "HOL-Library.Word" "HOL-Library.Product_Lexorder"
begin

section \<open>Alpha variant remapper of \<^verbatim>\<open>scripts/make_boundary_translucent.py\<close>\<close>

subsection \<open>Data model\<close>

text \<open>
  A pixel of an image converted to RGBA is the tuple \<open>(r, g, b, a)\<close> of four 8-bit
  channels. The script reads an image only through \<open>img.size\<close> and \<open>img.getpixel\<close>
  and writes one only through \<open>Image.new\<close> and \<open>out.putpixel\<close>, so an image is its
  size together with its pixel lookup; coordinates are \<open>(x, y)\<close> with \<open>x\<close> below the
  width and \<open>y\<close> below the height.
\<close>

type_synonym rgba = "8 word \<times> 8 word \<times> 8 word \<times> 8 word"

record image =
  img_size :: "nat \<times> nat"
  getpixel :: "nat \<times> nat \<Rightarrow> rgba"

definition Image_new :: "nat \<times> nat \<Rightarrow> image" where
  "Image_new sz = \<lparr>img_size = sz, getpixel = (\<lambda>_. (0, 0, 0, 0))\<rparr>"

definition putpixel :: "image \<Rightarrow> nat \<times> nat \<Rightarrow> rgba \<Rightarrow> image" where
  "putpixel im xy v = im\<lparr>getpixel := (getpixel im)(xy := v)\<rparr>"

definition alpha_of :: "rgba \<Rightarrow> 8 word" where
  "alpha_of p = (case p of (r, g, b, a) \<Rightarrow> a)"

definition rgb_of :: "rgba \<Rightarrow> 8 word \<times> 8 word \<times> 8 word" where
  "rgb_of p = (case p of (r, g, b, a) \<Rightarrow> (r, g, b))"

subsection \<open>Mode detector\<close>

text \<open>
  The histogram loop of \<open>_detect_alpha_modes\<close>: \<open>hist = [0] * 256\<close>, then for every
  row \<open>y\<close> and column \<open>x\<close> the alpha \<open>a\<close> of the pixel is counted when \<open>a > 0\<close>.
  An 8-bit alpha always indexes inside the 256 entries.
\<close>

definition hist_pixel :: "image \<Rightarrow> nat \<Rightarrow> nat \<Rightarrow> nat list \<Rightarrow> nat list" where
  "hist_pixel img y x hist =
     (case getpixel img (x, y) of (r, g, b, a) \<Rightarrow>
        if 0 < a then hist[unat a := hist ! unat a + 1] else hist)"

definition build_hist :: "image \<Rightarrow> nat list" where
  "build_hist img =
     (case img_size img of (w, h) \<Rightarrow>
        fold (\<lambda>y. fold (hist_pixel img y) [0..<w]) [0..<h] (replicate 256 0))"

text \<open>
  \<open>list.sort(key=..., reverse=True)\<close> is a stable sort into descending key order:
  elements with equal keys keep their original order. That is the stable ascending sort
  of the reversed list, reversed.
\<close>

definition sort_reverse :: "('a \<Rightarrow> 'k::linorder) \<Rightarrow> 'a list \<Rightarrow> 'a list" where
  "sort_reverse f xs = rev (sort_key f (rev xs))"

definition detect_alpha_modes :: "image \<Rightarrow> nat option \<times> nat option" where
  "detect_alpha_modes img =
     (let hist = build_hist img;
          non_zero = filter (\<lambda>(a, c). 0 < a \<and> 0 < c) (enumerate 0 hist)
      in if non_zero = [] then (None, None)
         else
           let sorted_nz = sort_reverse (\<lambda>t. (snd t, fst t)) non_zero;
               top = map fst (take 2 sorted_nz)
           in if length top = 1 then (Some (top ! 0), None)
              else if top ! 0 \<ge> top ! 1 then (Some (top ! 0), Some (top ! 1))
              else (Some (top ! 1), Some (top ! 0)))"

subsection \<open>Pixel remapper\<close>

text \<open>
  The pixel loop of \<open>transform_image\<close>, between decoding the input and saving the
  output. The loop state is the output image and the counter \<open>changed\<close>. The targets
  are the 8-bit alpha values written into the output.
\<close>

definition remap_pixel ::
  "image \<Rightarrow> nat option \<Rightarrow> nat option \<Rightarrow> 8 word \<Rightarrow> 8 word \<Rightarrow> nat \<Rightarrow> nat \<Rightarrow>
   image \<times> nat \<Rightarrow> image \<times> nat" where
  "remap_pixel img high_mode low_mode opaque_alpha transparent_alpha y x st =
     (case st of (out, changed) \<Rightarrow>
      case getpixel img (x, y) of (r, g, b, a) \<Rightarrow>
        if (low_mode = None \<or> low_mode = Some 0) \<and> 0 < a then
          (putpixel out (x, y) (r, g, b, min opaque_alpha transparent_alpha), changed + 1)
        else if high_mode \<noteq> None \<and> Some (unat a) = high_mode then
          (putpixel out (x, y) (r, g, b, opaque_alpha), changed + 1)
        else if low_mode \<noteq> None \<and> Some (unat a) = low_mode then
          (putpixel out (x, y) (r, g, b, transparent_alpha), changed + 1)
        else
          (putpixel out (x, y) (r, g, b, a), changed))"

definition remap_loop ::
  "image \<Rightarrow> nat option \<Rightarrow> nat option \<Rightarrow> 8 word \<Rightarrow> 8 word \<Rightarrow> image \<times> nat" where
  "remap_loop img high_mode low_mode opaque_alpha transparent_alpha =
     (case img_size img of (w, h) \<Rightarrow>
        fold (\<lambda>y. fold (remap_pixel img high_mode low_mode opaque_alpha transparent_alpha y)
                       [0..<w])
             [0..<h] (Image_new (w, h), 0))"

text \<open>
  The remapper proper: the detector followed by the pixel loop, as \<open>transform_image\<close>
  runs them on the decoded image. It returns the output image and \<open>changed\<close>.
\<close>

definition remap :: "image \<Rightarrow> 8 word \<Rightarrow> 8 word \<Rightarrow> image \<times> nat" where
  "remap img opaque_alpha transparent_alpha =
     (case detect_alpha_modes img of (high_mode, low_mode) \<Rightarrow>
        remap_loop img high_mode low_mode opaque_alpha transparent_alpha)"

subsection \<open>Paths\<close>

text \<open>
  \<open>os.path.join\<close> and \<open>os.path.dirname\<close> as \<open>posixpath\<close> defines them, and the
  path constants of the script. \<open>ROOT\<close> is derived from the location of the script
  file, so it is a parameter here.
\<close>

definition path_join :: "string \<Rightarrow> string \<Rightarrow> string" where
  "path_join a b =
     (if b \<noteq> [] \<and> hd b = CHR ''/'' then b
      else if a = [] \<or> last a = CHR ''/'' then a @ b
      else a @ ''/'' @ b)"

definition dirname :: "string \<Rightarrow> string" where
  "dirname p =
     (let head = rev (dropWhile (\<lambda>c. c \<noteq> CHR ''/'') (rev p))
      in if head \<noteq> [] \<and> head \<noteq> replicate (length head) (CHR ''/'')
         then rev (dropWhile (\<lambda>c. c = CHR ''/'') (rev head))
         else head)"

definition GFX :: "string \<Rightarrow> string" where
  "GFX root = path_join root ''graphics''"

definition EDGES_IN :: "string \<Rightarrow> string" where
  "EDGES_IN root = path_join (path_join (GFX root) ''base'') ''edge''"

definition CORNERS_IN :: "string \<Rightarrow> string" where
  "CORNERS_IN root = path_join (path_join (GFX root) ''base'') ''corner''"

definition CENTERS_IN :: "string \<Rightarrow> string" where
  "CENTERS_IN root = path_join (path_join (GFX root) ''base'') ''center''"

definition BORDER_IN :: "string \<Rightarrow> string" where
  "BORDER_IN root = path_join (path_join (GFX root) ''base'') ''chart-border.png''"

definition variant_root :: "string \<Rightarrow> string \<Rightarrow> string" where
  "variant_root root tag = path_join (GFX root) tag"

definition edges_out_dir :: "string \<Rightarrow> string \<Rightarrow> string" where
  "edges_out_dir root tag = path_join (variant_root root tag) ''edge''"

definition corners_out_dir :: "string \<Rightarrow> string \<Rightarrow> string" where
  "corners_out_dir root tag = path_join (variant_root root tag) ''corner''"

definition centers_out_dir :: "string \<Rightarrow> string \<Rightarrow> string" where
  "centers_out_dir root tag = path_join (variant_root root tag) ''center''"

definition border_out_path :: "string \<Rightarrow> string \<Rightarrow> string" where
  "border_out_path root tag = path_join (variant_root root tag) ''chart-border.png''"

text \<open>
  \<open>name.lower().endswith(".png")\<close>. File names are byte strings here; lowering the
  ASCII letters decides the test, since no other character lowers to one of \<open>.png\<close>.
\<close>

definition lower_char :: "char \<Rightarrow> char" where
  "lower_char c =
     (let n = (of_char c :: nat) in if 65 \<le> n \<and> n \<le> 90 then char_of (n + 32) else c)"

definition lower :: "string \<Rightarrow> string" where
  "lower s = map lower_char s"

definition endswith :: "string \<Rightarrow> string \<Rightarrow> bool" where
  "endswith s suffix \<longleftrightarrow>
     length suffix \<le> length s \<and> drop (length s - length suffix) s = suffix"

subsection \<open>Files, effects and errors\<close>

text \<open>
  What the script reads from the file system is a record of lookups: which directories
  and files exist, what a directory lists, what \<open>Image.open(p).convert("RGBA")\<close> yields
  (\<open>None\<close> when it raises: a missing, unreadable or corrupt image), and whether
  \<open>os.makedirs\<close> and \<open>out.save\<close> succeed at a path. The inputs lie under
  \<open>graphics/base\<close> and the outputs under \<open>graphics/<tag>\<close>, so what the script writes
  does not change what it reads later, and the lookups are fixed during a run.

  What the script does is logged in a \<open>world\<close>: the paths passed to \<open>Image.open\<close>,
  the directories created, the images saved and the lines printed, each in order. A
  printed line is kept as its data (the script prints paths relative to \<open>ROOT\<close>).

  An exception is a value: the error together with the world at the moment it is
  raised. None of the functions of the script catches an exception.
\<close>

record fsys =
  isdir :: "string \<Rightarrow> bool"
  isfile :: "string \<Rightarrow> bool"
  listdir :: "string \<Rightarrow> string list"
  open_rgba :: "string \<Rightarrow> image option"
  can_makedirs :: "string \<Rightarrow> bool"
  can_save :: "string \<Rightarrow> bool"

datatype line =
    Skip_missing string
  | Processed string string nat "nat option" "nat option" "8 word"
  | Done nat nat

record world =
  opened :: "string list"
  made_dirs :: "string list"
  saved :: "(string \<times> image) list"
  printed :: "line list"

datatype error = OpenError string | MakedirsError string | SaveError string

definition ensure_dir :: "fsys \<Rightarrow> string \<Rightarrow> world \<Rightarrow> (error \<times> world) + world" where
  "ensure_dir fs path w =
     (if can_makedirs fs path then Inr (w\<lparr>made_dirs := made_dirs w @ [path]\<rparr>)
      else Inl (MakedirsError path, w))"

subsection \<open>Batch driver\<close>

definition transform_image ::
  "fsys \<Rightarrow> string \<Rightarrow> string \<Rightarrow> 8 word \<Rightarrow> 8 word \<Rightarrow> world \<Rightarrow> (error \<times> world) + world" where
  "transform_image fs in_path out_path opaque_alpha transparent_alpha w =
     (let w1 = w\<lparr>opened := opened w @ [in_path]\<rparr> in
      case open_rgba fs in_path of
        None \<Rightarrow> Inl (OpenError in_path, w1)
      | Some img \<Rightarrow>
         (case detect_alpha_modes img of (high_mode, low_mode) \<Rightarrow>
          case remap_loop img high_mode low_mode opaque_alpha transparent_alpha of
            (out, changed) \<Rightarrow>
             (case ensure_dir fs (dirname out_path) w1 of
                Inl e \<Rightarrow> Inl e
              | Inr w2 \<Rightarrow>
                 if can_save fs out_path then
                   Inr (w2\<lparr>saved := saved w2 @ [(out_path, out)],
                            printed := printed w2 @
                              [Processed in_path out_path changed high_mode low_mode
                                 (min opaque_alpha transparent_alpha)]\<rparr>)
                 else Inl (SaveError out_path, w2))))"

fun folder_loop ::
  "fsys \<Rightarrow> string \<Rightarrow> string \<Rightarrow> 8 word \<Rightarrow> 8 word \<Rightarrow> string list \<Rightarrow> nat \<Rightarrow> world \<Rightarrow>
   (error \<times> world) + (nat \<times> world)" where
  "folder_loop fs in_dir out_dir opaque_alpha transparent_alpha [] count w = Inr (count, w)"
| "folder_loop fs in_dir out_dir opaque_alpha transparent_alpha (name # names) count w =
     (if \<not> endswith (lower name) ''.png'' then
        folder_loop fs in_dir out_dir opaque_alpha transparent_alpha names count w
      else
        case transform_image fs (path_join in_dir name) (path_join out_dir name)
               opaque_alpha transparent_alpha w of
          Inl e \<Rightarrow> Inl e
        | Inr w' \<Rightarrow>
            folder_loop fs in_dir out_dir opaque_alpha transparent_alpha names (count + 1) w')"

definition process_folder ::
  "fsys \<Rightarrow> string \<Rightarrow> string \<Rightarrow> 8 word \<Rightarrow> 8 word \<Rightarrow> world \<Rightarrow>
   (error \<times> world) + (nat \<times> world)" where
  "process_folder fs in_dir out_dir opaque_alpha transparent_alpha w =
     (if \<not> isdir fs in_dir then
        Inr (0, w\<lparr>printed := printed w @ [Skip_missing in_dir]\<rparr>)
      else
        case ensure_dir fs out_dir w of
          Inl e \<Rightarrow> Inl e
        | Inr w1 \<Rightarrow>
            folder_loop fs in_dir out_dir opaque_alpha transparent_alpha
              (listdir fs in_dir) 0 w1)"

text \<open>
  A variant with its two targets as \<open>main\<close> computes them,
  \<open>int(round(255 * fraction))\<close>; the floating-point conversion itself is not part of
  the model. \<open>VARIANTS\<close> lists the three variants of the script with their targets.
\<close>

record variant =
  tag :: string
  v_oa :: "8 word"
  v_ta :: "8 word"

definition VARIANTS :: "variant list" where
  "VARIANTS =
     [\<lparr>tag = ''a40_15'', v_oa = 102, v_ta = 38\<rparr>,
      \<lparr>tag = ''a20_075'', v_oa = 51, v_ta = 19\<rparr>,
      \<lparr>tag = ''a10_25'', v_oa = 26, v_ta = 64\<rparr>]"

fun main_loop ::
  "fsys \<Rightarrow> string \<Rightarrow> variant list \<Rightarrow> nat \<Rightarrow> world \<Rightarrow> (error \<times> world) + (nat \<times> world)" where
  "main_loop fs root [] total_n w = Inr (total_n, w)"
| "main_loop fs root (v # vs) total_n w =
     (case process_folder fs (EDGES_IN root) (edges_out_dir root (tag v)) (v_oa v) (v_ta v) w of
        Inl e \<Rightarrow> Inl e
      | Inr (n1, w1) \<Rightarrow>
     (case process_folder fs (CORNERS_IN root) (corners_out_dir root (tag v)) (v_oa v) (v_ta v) w1 of
        Inl e \<Rightarrow> Inl e
      | Inr (n2, w2) \<Rightarrow>
     (case process_folder fs (CENTERS_IN root) (centers_out_dir root (tag v)) (v_oa v) (v_ta v) w2 of
        Inl e \<Rightarrow> Inl e
      | Inr (n3, w3) \<Rightarrow>
         if isfile fs (BORDER_IN root) then
           (case transform_image fs (BORDER_IN root) (border_out_path root (tag v))
                   (v_oa v) (v_ta v) w3 of
              Inl e \<Rightarrow> Inl e
            | Inr w4 \<Rightarrow> main_loop fs root vs (total_n + n1 + n2 + n3 + 1) w4)
         else main_loop fs root vs (total_n + n1 + n2 + n3) w3)))"

definition main ::
  "fsys \<Rightarrow> string \<Rightarrow> variant list \<Rightarrow> world \<Rightarrow> (error \<times> world) + (int \<times> world)" where
  "main fs root variants w =
     (case main_loop fs root variants 0 w of
        Inl e \<Rightarrow> Inl e
      | Inr (total_n, w') \<Rightarrow>
          Inr (0, w'\<lparr>printed := printed w' @ [Done total_n (length variants)]\<rparr>))"

text \<open>
  \<open>sys.exit(main())\<close>: the status is what \<open>main\<close> returns; an exception that leaves
  \<open>main\<close> is uncaught, and the interpreter ends with status 1.
\<close>

definition exit_status :: "(error \<times> world) + (int \<times> world) \<Rightarrow> int" where
  "exit_status r = (case r of Inl e \<Rightarrow> 1 | Inr (rc, w) \<Rightarrow> rc)"

definition final_world :: "(error \<times> world) + ('a \<times> world) \<Rightarrow> world" where
  "final_world r = (case r of Inl (e, w) \<Rightarrow> w | Inr (x, w) \<Rightarrow> w)"

definition empty_world :: world where
  "empty_world = \<lparr>opened = [], made_dirs = [], saved = [], printed = []\<rparr>"

subsection \<open>Quantities the properties are stated with\<close>

text \<open>
  The loops visit the coordinates row by row; \<open>coords\<close> lists them in that order.
  \<open>alpha_count img a\<close> is the number of pixels of \<open>img\<close> whose alpha is \<open>a\<close>,
  \<open>nonzero_alphas img\<close> the distinct non-zero alpha values that occur, in ascending
  order, and \<open>mode_key\<close> the key \<open>(count, alpha)\<close> by which the detector ranks them.
\<close>

definition coords :: "image \<Rightarrow> (nat \<times> nat) list" where
  "coords img = (case img_size img of (w, h) \<Rightarrow>
     concat (map (\<lambda>y. map (\<lambda>x. (x, y)) [0..<w]) [0..<h]))"

definition alpha_count :: "image \<Rightarrow> nat \<Rightarrow> nat" where
  "alpha_count img i = length (filter (\<lambda>xy. unat (alpha_of (getpixel img xy)) = i) (coords img))"

definition nonzero_alphas :: "image \<Rightarrow> nat list" where
  "nonzero_alphas img = filter (\<lambda>a. 0 < a \<and> 0 < alpha_count img a) [0..<256]"

definition mode_key :: "image \<Rightarrow> nat \<Rightarrow> nat \<times> nat" where
  "mode_key img a = (alpha_count img a, a)"

text \<open>
  \<open>outranks img p r\<close>: alpha \<open>p\<close> is ranked before alpha \<open>r\<close>, that is, \<open>p\<close> has
  the greater pixel count, or the same count and the larger alpha value.
\<close>

definition outranks :: "image \<Rightarrow> nat \<Rightarrow> nat \<Rightarrow> bool" where
  "outranks img p r \<longleftrightarrow>
     alpha_count img r < alpha_count img p \<or> (alpha_count img r = alpha_count img p \<and> r < p)"

text \<open>
  \<open>rule_applies\<close> says that one of the three rewriting branches of the pixel loop is
  taken for a pixel of alpha \<open>a\<close> (the branches that increment \<open>changed\<close>), and
  \<open>target_alpha\<close> is the alpha the loop writes. \<open>changed_pixels img out\<close> counts the
  pixels whose alpha in \<open>out\<close> differs from their alpha in \<open>img\<close>.
\<close>

definition rule_applies :: "nat option \<Rightarrow> nat option \<Rightarrow> 8 word \<Rightarrow> bool" where
  "rule_applies high_mode low_mode a \<longleftrightarrow>
     ((low_mode = None \<or> low_mode = Some 0) \<and> 0 < a) \<or>
     Some (unat a) = high_mode \<or> Some (unat a) = low_mode"

definition target_alpha ::
  "nat option \<Rightarrow> nat option \<Rightarrow> 8 word \<Rightarrow> 8 word \<Rightarrow> 8 word \<Rightarrow> 8 word" where
  "target_alpha high_mode low_mode opaque_alpha transparent_alpha a =
     (if (low_mode = None \<or> low_mode = Some 0) \<and> 0 < a then min opaque_alpha transparent_alpha
      else if Some (unat a) = high_mode then opaque_alpha
      else if Some (unat a) = low_mode then transparent_alpha
      else a)"

definition changed_pixels :: "image \<Rightarrow> image \<Rightarrow> nat" where
  "changed_pixels img out =
     length (filter (\<lambda>xy. alpha_of (getpixel out xy) \<noteq> alpha_of (getpixel img xy)) (coords img))"

definition remapped :: "nat option \<Rightarrow> nat option \<Rightarrow> 8 word \<Rightarrow> 8 word \<Rightarrow> rgba \<Rightarrow> rgba" where
  "remapped hm lm oa ta p =
     (fst p, fst (snd p), fst (snd (snd p)), target_alpha hm lm oa ta (alpha_of p))"

subsection \<open>Quantities of the batch properties\<close>

text \<open>
  \<open>readable fs ps\<close>: every path of \<open>ps\<close> decodes. \<open>halts_at_unreadable\<close> is what
  holds of a result of the batch driver: after a normal return every image opened so far
  was readable; after an \<open>OpenError\<close> the unreadable image is the last one opened and
  the ones before it were readable; after another error all opened images were readable.
  \<open>folder_inputs fs in_dir\<close> lists the files of a folder that \<open>process_folder\<close> is to
  process: the entries of an existing directory whose name ends in \<open>.png\<close>.
\<close>

definition readable :: "fsys \<Rightarrow> string list \<Rightarrow> bool" where
  "readable fs ps \<longleftrightarrow> (\<forall>p \<in> set ps. open_rgba fs p \<noteq> None)"

definition halts_at_unreadable :: "fsys \<Rightarrow> (error \<times> world) + world \<Rightarrow> bool" where
  "halts_at_unreadable fs r =
     (case r of
        Inr w \<Rightarrow> readable fs (opened w)
      | Inl (OpenError p, w) \<Rightarrow>
          opened w \<noteq> [] \<and> last (opened w) = p \<and> open_rgba fs p = None \<and>
          readable fs (butlast (opened w))
      | Inl (_, w) \<Rightarrow> readable fs (opened w))"

definition folder_inputs :: "fsys \<Rightarrow> string \<Rightarrow> string list" where
  "folder_inputs fs in_dir =
     (if isdir fs in_dir
      then map (path_join in_dir) (filter (\<lambda>name. endswith (lower name) ''.png'') (listdir fs in_dir))
      else [])"

text \<open>
  The expected work of a run. A unit of work is a pair of an input path and an output
  path; \<open>unit_error\<close> gives the exception that processing it raises, if any, and
  \<open>unit_ok\<close> says that it completes. \<open>folder_units\<close> lists the units of a folder (none
  when the folder is missing), \<open>variant_units\<close> those of a variant (edges, corners,
  centers, then the border image when it exists) and \<open>batch_units\<close> those of the whole
  run; the \<open>_dirs\<close> functions list the output directories that \<open>process_folder\<close>
  creates. \<open>stage_ok fs us ds w r\<close> says that \<open>r\<close> is a correct result of working
  through the units \<open>us\<close> and directories \<open>ds\<close> from the world \<open>w\<close>: after a normal
  return all units were opened and saved, in order; after an exception the units opened
  are an initial segment, all but the last completed, and the exception is the one of the
  last unit opened or that of a directory of \<open>ds\<close>.
\<close>

definition unit_error :: "fsys \<Rightarrow> string \<times> string \<Rightarrow> error option" where
  "unit_error fs u =
     (case open_rgba fs (fst u) of
        None \<Rightarrow> Some (OpenError (fst u))
      | Some img \<Rightarrow>
          if \<not> can_makedirs fs (dirname (snd u)) then Some (MakedirsError (dirname (snd u)))
          else if \<not> can_save fs (snd u) then Some (SaveError (snd u))
          else None)"

definition unit_ok :: "fsys \<Rightarrow> string \<times> string \<Rightarrow> bool" where
  "unit_ok fs u \<longleftrightarrow> unit_error fs u = None"

definition folder_units :: "fsys \<Rightarrow> string \<Rightarrow> string \<Rightarrow> (string \<times> string) list" where
  "folder_units fs in_dir out_dir =
     (if isdir fs in_dir
      then map (\<lambda>name. (path_join in_dir name, path_join out_dir name))
             (filter (\<lambda>name. endswith (lower name) ''.png'') (listdir fs in_dir))
      else [])"

definition folder_dirs :: "fsys \<Rightarrow> string \<Rightarrow> string \<Rightarrow> string list" where
  "folder_dirs fs in_dir out_dir = (if isdir fs in_dir then [out_dir] else [])"

definition variant_units :: "fsys \<Rightarrow> string \<Rightarrow> variant \<Rightarrow> (string \<times> string) list" where
  "variant_units fs root v =
     folder_units fs (EDGES_IN root) (edges_out_dir root (tag v)) @
     folder_units fs (CORNERS_IN root) (corners_out_dir root (tag v)) @
     folder_units fs (CENTERS_IN root) (centers_out_dir root (tag v)) @
     (if isfile fs (BORDER_IN root) then [(BORDER_IN root, border_out_path root (tag v))] else [])"

definition variant_dirs :: "fsys \<Rightarrow> string \<Rightarrow> variant \<Rightarrow> string list" where
  "variant_dirs fs root v =
     folder_dirs fs (EDGES_IN root) (edges_out_dir root (tag v)) @
     folder_dirs fs (CORNERS_IN root) (corners_out_dir root (tag v)) @
     folder_dirs fs (CENTERS_IN root) (centers_out_dir root (tag v))"

definition batch_units :: "fsys \<Rightarrow> string \<Rightarrow> variant list \<Rightarrow> (string \<times> string) list" where
  "batch_units fs root variants = concat (map (variant_units fs root) variants)"

definition batch_dirs :: "fsys \<Rightarrow> string \<Rightarrow> variant list \<Rightarrow> string list" where
  "batch_dirs fs root variants = concat (map (variant_dirs fs root) variants)"

definition stage_ok ::
  "fsys \<Rightarrow> (string \<times> string) list \<Rightarrow> string list \<Rightarrow> world \<Rightarrow> (error \<times> world) + world \<Rightarrow> bool" where
  "stage_ok fs us ds w r =
     (case r of
        Inr w' \<Rightarrow>
          opened w' = opened w @ map fst us \<and>
          map fst (saved w') = map fst (saved w) @ map snd us \<and>
          (\<forall>u \<in> set us. unit_ok fs u) \<and> (\<forall>d \<in> set ds. can_makedirs fs d)
      | Inl (e, w') \<Rightarrow>
          (\<exists>pre post. us = pre @ post \<and> opened w' = opened w @ map fst pre \<and>
             (\<forall>u \<in> set (butlast pre). unit_ok fs u) \<and>
             ((pre \<noteq> [] \<and> unit_error fs (last pre) = Some e) \<or>
              (\<exists>d \<in> set ds. e = MakedirsError d \<and> \<not> can_makedirs fs d))))"

subsection \<open>Concrete images\<close>

text \<open>
  The images of the scenarios: a 2x1 image with alphas 102 and 38, a 2x2 image with the
  alphas 0 and 200 only, a fully transparent 2x2 image, and the 2x1 image again with other
  values outside its bounds.
\<close>

definition scenario_img :: image where
  "scenario_img = \<lparr>img_size = (2, 1),
     getpixel = (\<lambda>xy. if xy = (0, 0) then (255, 0, 0, 102) else (0, 255, 0, 38))\<rparr>"

definition single_img :: image where
  "single_img = \<lparr>img_size = (2, 2),
     getpixel = (\<lambda>xy. if fst xy = snd xy then (10, 20, 30, 200) else (40, 50, 60, 0))\<rparr>"

definition clear_img :: image where
  "clear_img = \<lparr>img_size = (2, 2), getpixel = (\<lambda>xy. (of_nat (fst xy), of_nat (snd xy), 9, 0))\<rparr>"

definition padded_img :: image where
  "padded_img = \<lparr>img_size = (2, 1),
     getpixel = (\<lambda>xy. if xy = (0, 0) then (255, 0, 0, 102)
                       else if xy = (1, 0) then (0, 255, 0, 38) else (1, 1, 1, 77))\<rparr>"




definition skip_fs :: fsys where
  "skip_fs = \<lparr>
     isdir = (\<lambda>p. p = ''/mod/graphics/base/corner''),
     isfile = (\<lambda>p. False),
     listdir = (\<lambda>p. if p = ''/mod/graphics/base/corner'' then [''c.png''] else []),
     open_rgba = (\<lambda>p. if p = ''/mod/graphics/base/corner/c.png'' then Some scenario_img else None),
     can_makedirs = (\<lambda>p. True),
     can_save = (\<lambda>p. True)\<rparr>"

section \<open>Verification\<close>

subsection \<open>The histogram\<close>

lemma fold_rows:
  "fold (\<lambda>y. fold (f y) xs) ys s =
   fold (\<lambda>xy. f (snd xy) (fst xy)) (concat (map (\<lambda>y. map (\<lambda>x. (x, y)) xs) ys)) s"
proof (induction ys arbitrary: s)
  case Nil
  show ?case by simp
next
  case (Cons y ys)
  have "fold (\<lambda>xy. f (snd xy) (fst xy)) (map (\<lambda>x. (x, y)) xs) s = fold (f y) xs s"
    by (simp add: fold_map comp_def)
  with Cons show ?case by simp
qed

lemma set_coords:
  "set (coords img) = {(x, y). x < fst (img_size img) \<and> y < snd (img_size img)}"
proof (cases "img_size img")
  case (Pair w h)
  then show ?thesis by (auto simp: coords_def)
qed

lemma hist_fold:
  assumes "length hist = 256"
  shows "length (fold (\<lambda>xy. hist_pixel img (snd xy) (fst xy)) cs hist) = 256 \<and>
         (\<forall>i<256. fold (\<lambda>xy. hist_pixel img (snd xy) (fst xy)) cs hist ! i =
            hist ! i + (if i = 0 then 0
                        else length (filter (\<lambda>xy. unat (alpha_of (getpixel img xy)) = i) cs)))"
  using assms
proof (induction cs arbitrary: hist)
  case Nil
  then show ?case by simp
next
  case (Cons c cs)
  obtain x y where c: "c = (x, y)" by (cases c)
  obtain r g b a where p: "getpixel img (x, y) = (r, g, b, a)" by (cases "getpixel img (x, y)")
  let ?h = "hist_pixel img y x hist"
  have len: "length ?h = 256" using Cons.prems by (simp add: hist_pixel_def p)
  have ua: "unat a < 256" using unsigned_less [of a, where ?'a = nat] by simp
  have step: "\<forall>i<256. ?h ! i = hist ! i + (if i \<noteq> 0 \<and> unat a = i then 1 else 0)"
    using Cons.prems ua by (auto simp: hist_pixel_def p unat_gt_0 word_gt_0 nth_list_update)
  from Cons.IH [OF len] step show ?case
    by (auto simp: c p alpha_of_def)
qed

lemma build_hist_nth:
  "length (build_hist img) = 256"
  "i < 256 \<Longrightarrow> build_hist img ! i = (if i = 0 then 0 else alpha_count img i)"
  using hist_fold [of "replicate 256 0" img "coords img"]
  by (auto simp: build_hist_def coords_def alpha_count_def fold_rows split: prod.splits)

lemma non_zero_eq:
  "filter (\<lambda>(a, c). 0 < a \<and> 0 < c) (enumerate 0 (build_hist img)) =
   map (\<lambda>a. (a, alpha_count img a)) (nonzero_alphas img)"
proof -
  have "build_hist img = map (\<lambda>i. build_hist img ! i) [0..<256]"
    using map_nth [of "build_hist img"] by (simp add: build_hist_nth(1))
  also have "\<dots> = map (\<lambda>i. if i = 0 then 0 else alpha_count img i) [0..<256]"
    by (rule map_cong) (auto simp: build_hist_nth(2))
  finally have h: "build_hist img = map (\<lambda>i. if i = 0 then 0 else alpha_count img i) [0..<256]" .
  have "enumerate 0 (build_hist img) =
        map (\<lambda>k. (k, if k = 0 then 0 else alpha_count img k)) [0..<256]"
    by (subst h) (rule enumerate_map_upt)
  then show ?thesis
    by (auto simp: nonzero_alphas_def filter_map comp_def intro!: map_cong filter_cong)
qed

subsection \<open>The detector on the ranked list of alpha values\<close>

lemma insort_key_map_inj:
  "insort_key f (g x) (map g ys) = map g (insort_key (\<lambda>a. f (g a)) x ys)"
  by (induction ys) simp_all

lemma sort_key_map_inj:
  "sort_key f (map g xs) = map g (sort_key (\<lambda>a. f (g a)) xs)"
  by (induction xs) (simp_all add: insort_key_map_inj)

lemma sort_reverse_map:
  "sort_reverse f (map g xs) = map g (sort_reverse (\<lambda>a. f (g a)) xs)"
  by (simp add: sort_reverse_def rev_map sort_key_map_inj)

lemma sorted_nz_eq:
  "map fst (sort_reverse (\<lambda>t. (snd t, fst t)) (map (\<lambda>a. (a, alpha_count img a)) xs)) =
   sort_reverse (mode_key img) xs"
  by (simp add: sort_reverse_map comp_def mode_key_def [abs_def])

lemma detect_alpha_modes_cases:
  "detect_alpha_modes img =
     (case sort_reverse (mode_key img) (nonzero_alphas img) of
        [] \<Rightarrow> (None, None)
      | [p] \<Rightarrow> (Some p, None)
      | p # q # _ \<Rightarrow> (Some (max p q), Some (min p q)))"
proof -
  let ?nz = "map (\<lambda>a. (a, alpha_count img a)) (nonzero_alphas img)"
  let ?ds = "sort_reverse (mode_key img) (nonzero_alphas img)"
  have top: "map fst (take 2 (sort_reverse (\<lambda>t. (snd t, fst t)) ?nz)) = take 2 ?ds"
    by (simp add: take_map [symmetric] sorted_nz_eq)
  have len: "length ?ds = length (nonzero_alphas img)"
    by (simp add: sort_reverse_def)
  have d: "detect_alpha_modes img =
      (if nonzero_alphas img = [] then (None, None)
       else if length (take 2 ?ds) = 1 then (Some (take 2 ?ds ! 0), None)
       else if take 2 ?ds ! 0 \<ge> take 2 ?ds ! 1 then (Some (take 2 ?ds ! 0), Some (take 2 ?ds ! 1))
       else (Some (take 2 ?ds ! 1), Some (take 2 ?ds ! 0)))"
    unfolding detect_alpha_modes_def Let_def non_zero_eq top by simp
  show ?thesis
  proof (cases ?ds)
    case Nil
    with len show ?thesis by (simp add: d)
  next
    case (Cons p rest)
    with len have ne: "nonzero_alphas img \<noteq> []" by auto
    show ?thesis
    proof (cases rest)
      case Nil
      with Cons ne show ?thesis by (simp add: d)
    next
      case (Cons q rest')
      with \<open>?ds = p # rest\<close> ne show ?thesis by (simp add: d max_def min_def)
    qed
  qed
qed

lemma outranks_key: "outranks img p r \<longleftrightarrow> mode_key img r < mode_key img p"
  by (auto simp: outranks_def mode_key_def)

lemma sort_reverse_set [simp]: "set (sort_reverse f xs) = set xs"
  by (simp add: sort_reverse_def)

lemma sort_reverse_distinct [simp]: "distinct (sort_reverse f xs) = distinct xs"
  by (simp add: sort_reverse_def)

lemma sort_reverse_length [simp]: "length (sort_reverse f xs) = length xs"
  by (simp add: sort_reverse_def)

lemma sort_reverse_desc: "sorted_wrt (\<lambda>a b. f b \<le> f a) (sort_reverse f xs)"
proof -
  have "sorted (map f (sort_key f (rev xs)))" by (rule sorted_sort_key)
  then have "sorted_wrt (\<lambda>a b. f a \<le> f b) (sort_key f (rev xs))"
    by (simp add: sorted_map)
  then show ?thesis
    by (simp add: sort_reverse_def sorted_wrt_rev)
qed

lemma distinct_nonzero_alphas: "distinct (nonzero_alphas img)"
  by (simp add: nonzero_alphas_def)

lemma set_nonzero_alphas:
  "a \<in> set (nonzero_alphas img) \<longleftrightarrow> 0 < a \<and> a < 256 \<and> 0 < alpha_count img a"
  by (auto simp: nonzero_alphas_def)

lemma alpha_count_pos:
  "0 < alpha_count img a \<longleftrightarrow>
     (\<exists>x y. x < fst (img_size img) \<and> y < snd (img_size img) \<and>
            unat (alpha_of (getpixel img (x, y))) = a)"
proof -
  have "0 < alpha_count img a \<longleftrightarrow>
        (\<exists>xy \<in> set (coords img). unat (alpha_of (getpixel img xy)) = a)"
    by (auto simp: alpha_count_def filter_empty_conv)
  then show ?thesis by (auto simp: set_coords)
qed

lemma ranked_desc:
  "sorted_wrt (\<lambda>a b. outranks img a b) (sort_reverse (mode_key img) (nonzero_alphas img))"
proof -
  let ?ds = "sort_reverse (mode_key img) (nonzero_alphas img)"
  have d: "distinct ?ds" by (simp add: distinct_nonzero_alphas)
  have s: "sorted_wrt (\<lambda>a b. mode_key img b \<le> mode_key img a) ?ds"
    by (rule sort_reverse_desc)
  have "sorted_wrt (\<lambda>a b. mode_key img b \<le> mode_key img a \<and> a \<noteq> b) ?ds"
    using s d by (simp add: sorted_wrt_iff_nth_less nth_eq_iff_index_eq)
  then show ?thesis
    by (rule sorted_wrt_mono_rel [rotated]) (auto simp: outranks_def mode_key_def)
qed

lemma detect_two:
  assumes "sort_reverse (mode_key img) (nonzero_alphas img) = p # q # rest"
  shows "detect_alpha_modes img = (Some (max p q), Some (min p q))"
    and "p \<noteq> q" and "outranks img p q"
    and "\<forall>r \<in> set (nonzero_alphas img). r \<noteq> p \<longrightarrow> r \<noteq> q \<longrightarrow> outranks img q r"
    and "p \<in> set (nonzero_alphas img)" and "q \<in> set (nonzero_alphas img)"
proof -
  show "detect_alpha_modes img = (Some (max p q), Some (min p q))"
    by (simp add: detect_alpha_modes_cases assms)
  have s: "sorted_wrt (\<lambda>a b. outranks img a b) (p # q # rest)"
    using ranked_desc [of img] by (simp add: assms)
  then show "outranks img p q" by simp
  then show "p \<noteq> q" by (auto simp: outranks_def)
  have st: "set (nonzero_alphas img) = set (p # q # rest)"
    using sort_reverse_set [of "mode_key img" "nonzero_alphas img"] by (simp add: assms)
  then show "p \<in> set (nonzero_alphas img)" and "q \<in> set (nonzero_alphas img)" by simp_all
  show "\<forall>r \<in> set (nonzero_alphas img). r \<noteq> p \<longrightarrow> r \<noteq> q \<longrightarrow> outranks img q r"
    using s st by auto
qed

lemma detect_one:
  assumes "nonzero_alphas img = [v]"
  shows "detect_alpha_modes img = (Some v, None)"
  by (simp add: detect_alpha_modes_cases assms sort_reverse_def)

lemma detect_none:
  assumes "nonzero_alphas img = []"
  shows "detect_alpha_modes img = (None, None)"
  by (simp add: detect_alpha_modes_cases assms sort_reverse_def)

lemma ranked_cases:
  obtains
    (none) "nonzero_alphas img = []"
  | (one) v where "nonzero_alphas img = [v]"
  | (two) p q rest where "sort_reverse (mode_key img) (nonzero_alphas img) = p # q # rest"
proof (cases "sort_reverse (mode_key img) (nonzero_alphas img)")
  case Nil
  then have "length (nonzero_alphas img) = 0"
    using sort_reverse_length [of "mode_key img" "nonzero_alphas img"] by simp
  then show ?thesis using none by simp
next
  case (Cons p rest)
  show ?thesis
  proof (cases rest)
    case Nil
    with Cons have "length (nonzero_alphas img) = 1"
      using sort_reverse_length [of "mode_key img" "nonzero_alphas img"] by simp
    then obtain v where "nonzero_alphas img = [v]"
      by (cases "nonzero_alphas img") auto
    then show ?thesis using one by simp
  next
    case (Cons q rest')
    with \<open>sort_reverse (mode_key img) (nonzero_alphas img) = p # rest\<close> show ?thesis
      using two by simp
  qed
qed

text \<open>
  C2. In an image with at least two distinct non-zero alpha values the detector selects
  alpha values \<open>p\<close> and \<open>q\<close> that occur in the image, \<open>p\<close> ranked before \<open>q\<close> and
  \<open>q\<close> before every other non-zero alpha that occurs (greater pixel count first, the
  larger alpha on equal counts), and returns the larger of the two as high mode and the
  smaller as low mode. In an image with exactly one distinct non-zero alpha \<open>v\<close> it
  returns \<open>(v, absent)\<close>.
\<close>

theorem detect_selects_two_most_frequent:
  "(2 \<le> length (nonzero_alphas img) \<longrightarrow>
      (\<exists>p q. p \<in> set (nonzero_alphas img) \<and> q \<in> set (nonzero_alphas img) \<and>
             outranks img p q \<and>
             (\<forall>r \<in> set (nonzero_alphas img). r \<noteq> p \<longrightarrow> r \<noteq> q \<longrightarrow> outranks img q r) \<and>
             detect_alpha_modes img = (Some (max p q), Some (min p q)))) \<and>
   (nonzero_alphas img = [v] \<longrightarrow> detect_alpha_modes img = (Some v, None))"
proof (intro conjI impI)
  assume "2 \<le> length (nonzero_alphas img)"
  then obtain p q rest where "sort_reverse (mode_key img) (nonzero_alphas img) = p # q # rest"
    by (cases rule: ranked_cases [of img]) auto
  from detect_two [OF this] show "\<exists>p q. p \<in> set (nonzero_alphas img) \<and> q \<in> set (nonzero_alphas img) \<and>
             outranks img p q \<and>
             (\<forall>r \<in> set (nonzero_alphas img). r \<noteq> p \<longrightarrow> r \<noteq> q \<longrightarrow> outranks img q r) \<and>
             detect_alpha_modes img = (Some (max p q), Some (min p q))"
    by blast
next
  assume "nonzero_alphas img = [v]"
  then show "detect_alpha_modes img = (Some v, None)" by (rule detect_one)
qed

lemma detect_modes_sound:
  "(detect_alpha_modes img = (Some hm, lm) \<longrightarrow> hm \<in> set (nonzero_alphas img)) \<and>
   (detect_alpha_modes img = (hm', Some l) \<longrightarrow>
      l \<in> set (nonzero_alphas img) \<and> (\<exists>h. hm' = Some h \<and> h \<in> set (nonzero_alphas img) \<and> l < h))"
proof (cases rule: ranked_cases [of img])
  case none
  then show ?thesis by (simp add: detect_none)
next
  case (one v)
  then show ?thesis by (auto simp: detect_one)
next
  case (two p q rest)
  from detect_two [OF two] show ?thesis
    by (auto simp: max_def min_def)
qed

lemma detect_low_None:
  assumes "detect_alpha_modes img = (hm, None)"
  shows "length (nonzero_alphas img) \<le> 1"
  using assms
proof (cases rule: ranked_cases [of img])
  case (two p q rest)
  from detect_two(1) [OF two] assms show ?thesis by simp
qed simp_all

subsection \<open>The pixel loop of the remapper\<close>

lemma remap_pixel_step:
  "remap_pixel img hm lm oa ta y x (out, c) =
     (putpixel out (x, y)
        (fst (getpixel img (x, y)), fst (snd (getpixel img (x, y))),
         fst (snd (snd (getpixel img (x, y)))),
         target_alpha hm lm oa ta (alpha_of (getpixel img (x, y)))),
      c + (if rule_applies hm lm (alpha_of (getpixel img (x, y))) then 1 else 0))"
  by (cases "getpixel img (x, y)")
     (auto simp: remap_pixel_def target_alpha_def rule_applies_def alpha_of_def)

lemma remap_fold:
  "img_size (fst (fold (\<lambda>xy. remap_pixel img hm lm oa ta (snd xy) (fst xy)) cs (out0, c0))) =
     img_size out0"
  "getpixel (fst (fold (\<lambda>xy. remap_pixel img hm lm oa ta (snd xy) (fst xy)) cs (out0, c0))) xy =
     (if xy \<in> set cs then remapped hm lm oa ta (getpixel img xy) else getpixel out0 xy)"
  "snd (fold (\<lambda>xy. remap_pixel img hm lm oa ta (snd xy) (fst xy)) cs (out0, c0)) =
     c0 + length (filter (\<lambda>xy. rule_applies hm lm (alpha_of (getpixel img xy))) cs)"
proof (induction cs arbitrary: out0 c0)
  case Nil
  { case 1 show ?case by simp }
  { case 2 show ?case by simp }
  { case 3 show ?case by simp }
next
  case (Cons c cs)
  obtain x y where c: "c = (x, y)" by (cases c)
  { case 1 show ?case by (simp add: c remap_pixel_step Cons.IH(1) putpixel_def) }
  { case 2 show ?case by (simp add: c remap_pixel_step Cons.IH(2) putpixel_def remapped_def) }
  { case 3 show ?case by (simp add: c remap_pixel_step Cons.IH(3)) }
qed

lemma remap_eq_fold:
  "remap img oa ta =
     fold (\<lambda>xy. remap_pixel img (fst (detect_alpha_modes img)) (snd (detect_alpha_modes img))
                   oa ta (snd xy) (fst xy))
          (coords img) (Image_new (img_size img), 0)"
  by (cases "detect_alpha_modes img"; cases "img_size img")
     (simp add: remap_def remap_loop_def coords_def fold_rows)

lemma remap_size: "img_size (fst (remap img oa ta)) = img_size img"
  by (simp add: remap_eq_fold remap_fold(1) Image_new_def)

lemma remap_getpixel:
  assumes "x < fst (img_size img)" and "y < snd (img_size img)"
  shows "getpixel (fst (remap img oa ta)) (x, y) =
         remapped (fst (detect_alpha_modes img)) (snd (detect_alpha_modes img)) oa ta
           (getpixel img (x, y))"
  using assms by (simp add: remap_eq_fold remap_fold(2) set_coords)

lemma remap_changed:
  "snd (remap img oa ta) =
     length (filter (\<lambda>xy. rule_applies (fst (detect_alpha_modes img))
                             (snd (detect_alpha_modes img)) (alpha_of (getpixel img xy)))
               (coords img))"
  by (simp add: remap_eq_fold remap_fold(3))

lemma rgb_remapped: "rgb_of (remapped hm lm oa ta p) = rgb_of p"
  by (cases p) (simp add: remapped_def rgb_of_def)

lemma alpha_remapped: "alpha_of (remapped hm lm oa ta p) = target_alpha hm lm oa ta (alpha_of p)"
  by (simp add: remapped_def alpha_of_def)

subsection \<open>Properties of detector and remapper\<close>

lemma in_range_nonzero:
  assumes "x < fst (img_size img)" "y < snd (img_size img)"
    and "0 < alpha_of (getpixel img (x, y))"
  shows "unat (alpha_of (getpixel img (x, y))) \<in> set (nonzero_alphas img)"
proof -
  let ?a = "alpha_of (getpixel img (x, y))"
  have "0 < unat ?a" using assms(3) by (simp add: unat_gt_0 word_gt_0)
  moreover have "unat ?a < 256" using unsigned_less [of ?a, where ?'a = nat] by simp
  moreover have "0 < alpha_count img (unat ?a)"
    using assms(1,2) by (auto simp: alpha_count_pos)
  ultimately show ?thesis by (simp add: set_nonzero_alphas)
qed

lemma remapped_same: "target_alpha hm lm oa ta (alpha_of p) = alpha_of p \<Longrightarrow> remapped hm lm oa ta p = p"
  by (cases p) (simp add: remapped_def alpha_of_def)

lemma exactly_two_distinct:
  assumes "nonzero_alphas img = [B, A]"
  shows "detect_alpha_modes img = (Some A, Some B)" and "B < A"
proof -
  have "sorted_wrt (<) (nonzero_alphas img)"
    unfolding nonzero_alphas_def by (rule sorted_wrt_filter) (simp add: sorted_wrt_upt)
  then show ba: "B < A" by (simp add: assms)
  obtain p q rest where r: "sort_reverse (mode_key img) (nonzero_alphas img) = p # q # rest"
    using assms by (cases rule: ranked_cases [of img]) auto
  have "length (sort_reverse (mode_key img) (nonzero_alphas img)) = length (nonzero_alphas img)"
    by (rule sort_reverse_length)
  then have rest: "rest = []" unfolding r unfolding assms by simp
  have "set (sort_reverse (mode_key img) (nonzero_alphas img)) = set (nonzero_alphas img)"
    by (rule sort_reverse_set)
  then have "set [p, q] = {A, B}" unfolding r rest unfolding assms by auto
  then have "max p q = A \<and> min p q = B"
    using ba by (auto simp: max_def min_def doubleton_eq_iff)
  with detect_two(1) [OF r] show "detect_alpha_modes img = (Some A, Some B)" by simp
qed

text \<open>
  C1. Whenever the detector finds both modes, \<open>A\<close> the high one and \<open>B\<close> the low one,
  the remapper gives every pixel of alpha \<open>A\<close> the alpha \<open>opaque_alpha\<close>, every pixel
  of alpha \<open>B\<close> the alpha \<open>transparent_alpha\<close>, and leaves every other alpha (0 included)
  as it is. The targets are arbitrary, so this holds too when
  \<open>opaque_alpha < transparent_alpha\<close>; the witness is the scenario with targets 26 and 64.
  Lemma \<open>exactly_two_distinct\<close> above shows that an image with exactly two distinct
  non-zero alpha values \<open>B < A\<close> is such an image, with modes \<open>(A, B)\<close>.
\<close>

theorem remap_two_modes:
  assumes "detect_alpha_modes img = (Some A, Some B)"
    and "x < fst (img_size img)" and "y < snd (img_size img)"
  shows "(unat (alpha_of (getpixel img (x, y))) = A \<longrightarrow>
            alpha_of (getpixel (fst (remap img opaque_alpha transparent_alpha)) (x, y)) = opaque_alpha) \<and>
         (unat (alpha_of (getpixel img (x, y))) = B \<longrightarrow>
            alpha_of (getpixel (fst (remap img opaque_alpha transparent_alpha)) (x, y)) = transparent_alpha) \<and>
         (unat (alpha_of (getpixel img (x, y))) \<noteq> A \<and> unat (alpha_of (getpixel img (x, y))) \<noteq> B \<longrightarrow>
            alpha_of (getpixel (fst (remap img opaque_alpha transparent_alpha)) (x, y)) =
            alpha_of (getpixel img (x, y)))"
proof -
  from detect_modes_sound [where img = img and hm' = "Some A" and l = B] assms(1)
  have "B \<in> set (nonzero_alphas img)" and "B < A" by auto
  then have "0 < B" and "A \<noteq> B" by (auto simp: set_nonzero_alphas)
  then show ?thesis
    using assms by (auto simp: remap_getpixel alpha_remapped target_alpha_def)
qed

theorem remap_two_modes_witness:
  "detect_alpha_modes scenario_img = (Some 102, Some 38) \<and>
   0 < fst (img_size scenario_img) \<and> 0 < snd (img_size scenario_img) \<and>
   unat (alpha_of (getpixel scenario_img (0, 0))) = 102 \<and>
   alpha_of (getpixel (fst (remap scenario_img 26 64)) (0, 0)) = 26"
proof -
  have d: "detect_alpha_modes scenario_img = (Some 102, Some 38)" by code_simp
  have x: "0 < fst (img_size scenario_img)" and y: "0 < snd (img_size scenario_img)"
    by (simp_all add: scenario_img_def)
  have a: "unat (alpha_of (getpixel scenario_img (0, 0))) = 102"
    by (simp add: scenario_img_def alpha_of_def)
  from remap_two_modes [OF d x y, of 26 64] a
  have "alpha_of (getpixel (fst (remap scenario_img 26 64)) (0, 0)) = 26" by blast
  with d x y a show ?thesis by blast
qed

text \<open>
  C3. When the detected low mode is absent, the remapper sets the alpha of every pixel
  with alpha above 0 to \<open>min opaque_alpha transparent_alpha\<close> and leaves every pixel
  with alpha 0 untouched, for all 8-bit targets.
\<close>

theorem remap_single_mode:
  assumes "detect_alpha_modes img = (high_mode, None)"
    and "x < fst (img_size img)" and "y < snd (img_size img)"
  shows "(0 < alpha_of (getpixel img (x, y)) \<longrightarrow>
            alpha_of (getpixel (fst (remap img opaque_alpha transparent_alpha)) (x, y)) =
            min opaque_alpha transparent_alpha) \<and>
         (alpha_of (getpixel img (x, y)) = 0 \<longrightarrow>
            getpixel (fst (remap img opaque_alpha transparent_alpha)) (x, y) = getpixel img (x, y))"
proof -
  have "high_mode \<noteq> Some 0"
    using detect_modes_sound [where img = img and hm = 0 and lm = None] assms(1) by (auto simp: set_nonzero_alphas)
  then have z: "Some (unat (0 :: 8 word)) \<noteq> high_mode" by auto
  show ?thesis
    using assms z by (auto simp: remap_getpixel alpha_remapped target_alpha_def intro!: remapped_same)
qed

theorem remap_single_mode_witness:
  "detect_alpha_modes single_img = (Some 200, None) \<and>
   0 < fst (img_size single_img) \<and> 0 < snd (img_size single_img) \<and>
   0 < alpha_of (getpixel single_img (0, 0)) \<and>
   alpha_of (getpixel (fst (remap single_img 102 38)) (0, 0)) = min 102 38"
proof -
  have d: "detect_alpha_modes single_img = (Some 200, None)" by code_simp
  have x: "0 < fst (img_size single_img)" and y: "0 < snd (img_size single_img)"
    by (simp_all add: single_img_def)
  have a: "0 < alpha_of (getpixel single_img (0, 0))"
    by (simp add: single_img_def alpha_of_def)
  from remap_single_mode [OF d x y, of 102 38] a
  have "alpha_of (getpixel (fst (remap single_img 102 38)) (0, 0)) = min 102 38" by blast
  with d x y a show ?thesis by blast
qed

theorem detect_selects_witness:
  "2 \<le> length (nonzero_alphas scenario_img) \<and> nonzero_alphas single_img = [200] \<and>
   (\<exists>p q. p \<in> set (nonzero_alphas scenario_img) \<and> q \<in> set (nonzero_alphas scenario_img) \<and>
          outranks scenario_img p q \<and>
          (\<forall>r \<in> set (nonzero_alphas scenario_img). r \<noteq> p \<longrightarrow> r \<noteq> q \<longrightarrow> outranks scenario_img q r) \<and>
          detect_alpha_modes scenario_img = (Some (max p q), Some (min p q))) \<and>
   detect_alpha_modes single_img = (Some 200, None)"
proof -
  have h1: "2 \<le> length (nonzero_alphas scenario_img)" by code_simp
  have h2: "nonzero_alphas single_img = [200]" by code_simp
  have c1: "\<exists>p q. p \<in> set (nonzero_alphas scenario_img) \<and> q \<in> set (nonzero_alphas scenario_img) \<and>
          outranks scenario_img p q \<and>
          (\<forall>r \<in> set (nonzero_alphas scenario_img). r \<noteq> p \<longrightarrow> r \<noteq> q \<longrightarrow> outranks scenario_img q r) \<and>
          detect_alpha_modes scenario_img = (Some (max p q), Some (min p q))"
    by (rule mp [OF conjunct1 [OF detect_selects_two_most_frequent] h1])
  have c2: "detect_alpha_modes single_img = (Some 200, None)"
    by (rule mp [OF conjunct2 [OF detect_selects_two_most_frequent] h2])
  from h1 h2 c1 c2 show ?thesis by (intro conjI)
qed

text \<open>
  C5, as stated, fails: in the identity scenario (targets 102 and 38 equal to the two
  modes) no alpha differs between input and output, yet the diagnostic count is 2.
\<close>

theorem changed_count_counterexample:
  "detect_alpha_modes scenario_img = (Some (unat (102 :: 8 word)), Some (unat (38 :: 8 word))) \<and>
   snd (remap scenario_img 102 38) = 2 \<and>
   changed_pixels scenario_img (fst (remap scenario_img 102 38)) = 0"
  by code_simp

lemma length_filter_imp:
  "(\<And>x. x \<in> set xs \<Longrightarrow> P x \<Longrightarrow> Q x) \<Longrightarrow> length (filter P xs) \<le> length (filter Q xs)"
  by (induction xs) auto

lemma coords_in_range:
  "xy \<in> set (coords img) \<Longrightarrow> fst xy < fst (img_size img) \<and> snd xy < snd (img_size img)"
  by (auto simp: set_coords)

lemma target_alpha_changes:
  "target_alpha hm lm oa ta a \<noteq> a \<Longrightarrow> rule_applies hm lm a"
  by (auto simp: target_alpha_def rule_applies_def split: if_splits)

lemma target_alpha_identity:
  "0 < unat ta \<Longrightarrow> target_alpha (Some (unat oa)) (Some (unat ta)) oa ta a = a"
  by (auto simp: target_alpha_def word_unat_eq_iff)

text \<open>
  C5, amended. The diagnostic count is the number of pixels for which a rewriting branch
  of the loop is taken (alpha above 0 when the low mode is absent, alpha equal to a
  detected mode otherwise), whether or not the alpha written differs from the old one.
  It is therefore at least the number of pixels whose alpha was changed, and in the
  identity case, where the targets equal the two detected modes, no alpha is changed.
\<close>

theorem changed_counts_rule_hits:
  "snd (remap img opaque_alpha transparent_alpha) =
     length (filter (\<lambda>xy. rule_applies (fst (detect_alpha_modes img)) (snd (detect_alpha_modes img))
                             (alpha_of (getpixel img xy))) (coords img)) \<and>
   changed_pixels img (fst (remap img opaque_alpha transparent_alpha)) \<le>
     snd (remap img opaque_alpha transparent_alpha) \<and>
   (detect_alpha_modes img = (Some (unat opaque_alpha), Some (unat transparent_alpha)) \<longrightarrow>
      changed_pixels img (fst (remap img opaque_alpha transparent_alpha)) = 0)"
proof (intro conjI impI)
  show "snd (remap img opaque_alpha transparent_alpha) =
     length (filter (\<lambda>xy. rule_applies (fst (detect_alpha_modes img)) (snd (detect_alpha_modes img))
                             (alpha_of (getpixel img xy))) (coords img))"
    by (rule remap_changed)
  show "changed_pixels img (fst (remap img opaque_alpha transparent_alpha)) \<le>
     snd (remap img opaque_alpha transparent_alpha)"
    unfolding changed_pixels_def remap_changed
  proof (rule length_filter_imp)
    fix xy assume m: "xy \<in> set (coords img)"
      and ne: "alpha_of (getpixel (fst (remap img opaque_alpha transparent_alpha)) xy) \<noteq>
           alpha_of (getpixel img xy)"
    obtain x y where xy: "xy = (x, y)" by (cases xy)
    from coords_in_range [OF m] have "x < fst (img_size img)" "y < snd (img_size img)"
      by (simp_all add: xy)
    with ne show "rule_applies (fst (detect_alpha_modes img)) (snd (detect_alpha_modes img))
                 (alpha_of (getpixel img xy))"
      by (auto simp: xy remap_getpixel alpha_remapped dest: target_alpha_changes)
  qed
next
  assume d: "detect_alpha_modes img = (Some (unat opaque_alpha), Some (unat transparent_alpha))"
  from detect_modes_sound [where img = img and hm' = "Some (unat opaque_alpha)"
      and l = "unat transparent_alpha"] d
  have pos: "0 < unat transparent_alpha" by (auto simp: set_nonzero_alphas)
  have "alpha_of (getpixel (fst (remap img opaque_alpha transparent_alpha)) xy) =
        alpha_of (getpixel img xy)" if m: "xy \<in> set (coords img)" for xy
  proof -
    obtain x y where xy: "xy = (x, y)" by (cases xy)
    from coords_in_range [OF m] have "x < fst (img_size img)" "y < snd (img_size img)"
      by (simp_all add: xy)
    then show ?thesis
      by (simp add: xy remap_getpixel alpha_remapped d target_alpha_identity [OF pos])
  qed
  then show "changed_pixels img (fst (remap img opaque_alpha transparent_alpha)) = 0"
    by (simp add: changed_pixels_def filter_empty_conv)
qed

theorem changed_counts_rule_hits_witness:
  "detect_alpha_modes scenario_img = (Some (unat (102 :: 8 word)), Some (unat (38 :: 8 word))) \<and>
   changed_pixels scenario_img (fst (remap scenario_img 102 38)) = 0"
proof -
  have d: "detect_alpha_modes scenario_img = (Some (unat (102 :: 8 word)), Some (unat (38 :: 8 word)))"
    by code_simp
  have "changed_pixels scenario_img (fst (remap scenario_img 102 38)) = 0"
    by (rule mp [OF conjunct2 [OF conjunct2 [OF changed_counts_rule_hits]] d])
  with d show ?thesis by (rule conjI)
qed

text \<open>
  C6. The output of the remapper has the size of the input, hence as many pixels; every
  pixel inside the image keeps its red, green and blue channels; and a pixel whose alpha
  is modified had the alpha of a detected mode.
\<close>

theorem remap_frame:
  "img_size (fst (remap img opaque_alpha transparent_alpha)) = img_size img \<and>
   length (coords (fst (remap img opaque_alpha transparent_alpha))) = length (coords img) \<and>
   (\<forall>x < fst (img_size img). \<forall>y < snd (img_size img).
      rgb_of (getpixel (fst (remap img opaque_alpha transparent_alpha)) (x, y)) =
        rgb_of (getpixel img (x, y)) \<and>
      (alpha_of (getpixel (fst (remap img opaque_alpha transparent_alpha)) (x, y)) \<noteq>
         alpha_of (getpixel img (x, y)) \<longrightarrow>
       Some (unat (alpha_of (getpixel img (x, y)))) = fst (detect_alpha_modes img) \<or>
       Some (unat (alpha_of (getpixel img (x, y)))) = snd (detect_alpha_modes img)))"
proof (intro conjI allI impI)
  show "img_size (fst (remap img opaque_alpha transparent_alpha)) = img_size img"
    by (rule remap_size)
  show "length (coords (fst (remap img opaque_alpha transparent_alpha))) = length (coords img)"
    by (simp add: coords_def remap_size)
next
  fix x y assume "x < fst (img_size img)" "y < snd (img_size img)"
  then show "rgb_of (getpixel (fst (remap img opaque_alpha transparent_alpha)) (x, y)) =
        rgb_of (getpixel img (x, y))"
    by (simp add: remap_getpixel rgb_remapped)
next
  fix x y
  let ?a = "alpha_of (getpixel img (x, y))"
  let ?hm = "fst (detect_alpha_modes img)" and ?lm = "snd (detect_alpha_modes img)"
  assume xy: "x < fst (img_size img)" "y < snd (img_size img)"
    and "alpha_of (getpixel (fst (remap img opaque_alpha transparent_alpha)) (x, y)) \<noteq> ?a"
  then have ne: "target_alpha ?hm ?lm opaque_alpha transparent_alpha ?a \<noteq> ?a"
    by (simp add: remap_getpixel alpha_remapped)
  show "Some (unat ?a) = ?hm \<or> Some (unat ?a) = ?lm"
  proof (cases "?lm")
    case (Some l)
    then have "detect_alpha_modes img = (?hm, Some l)" by (simp add: prod_eq_iff)
    from detect_modes_sound [where img = img and hm' = ?hm and l = l] this
    have "0 < l" by (auto simp: set_nonzero_alphas)
    with ne Some show ?thesis by (auto simp: target_alpha_def split: if_splits)
  next
    case None
    then have d: "detect_alpha_modes img = (?hm, None)" by (simp add: prod_eq_iff)
    show ?thesis
    proof (cases "0 < ?a")
      case False
      with ne None show ?thesis by (auto simp: target_alpha_def split: if_splits)
    next
      case True
      from in_range_nonzero [OF xy True] have m: "unat ?a \<in> set (nonzero_alphas img)" .
      from detect_low_None [OF d] m obtain v where v: "nonzero_alphas img = [v]"
        by (cases "nonzero_alphas img") auto
      with m have "unat ?a = v" by simp
      with detect_one [OF v] show ?thesis by simp
    qed
  qed
qed

theorem remap_frame_witness:
  "0 < fst (img_size scenario_img) \<and> 0 < snd (img_size scenario_img) \<and>
   rgb_of (getpixel (fst (remap scenario_img 26 64)) (0, 0)) = rgb_of (getpixel scenario_img (0, 0))"
proof -
  have x: "0 < fst (img_size scenario_img)" and y: "0 < snd (img_size scenario_img)"
    by (simp_all add: scenario_img_def)
  from remap_frame [of scenario_img 26 64] x y
  have "rgb_of (getpixel (fst (remap scenario_img 26 64)) (0, 0)) = rgb_of (getpixel scenario_img (0, 0))"
    by blast
  with x y show ?thesis by blast
qed

text \<open>
  C7. When every pixel of the image has alpha 0, the detector returns (absent, absent)
  and the output of the remapper equals the input, pixel for pixel.
\<close>

theorem all_transparent_unchanged:
  assumes "\<forall>x < fst (img_size img). \<forall>y < snd (img_size img). alpha_of (getpixel img (x, y)) = 0"
  shows "detect_alpha_modes img = (None, None) \<and>
         img_size (fst (remap img opaque_alpha transparent_alpha)) = img_size img \<and>
         (\<forall>x < fst (img_size img). \<forall>y < snd (img_size img).
            getpixel (fst (remap img opaque_alpha transparent_alpha)) (x, y) = getpixel img (x, y))"
proof -
  have "a \<notin> set (nonzero_alphas img)" for a
    using assms by (auto simp: set_nonzero_alphas alpha_count_pos)
  then have "nonzero_alphas img = []" by (cases "nonzero_alphas img") auto
  then have d: "detect_alpha_modes img = (None, None)" by (rule detect_none)
  have "getpixel (fst (remap img opaque_alpha transparent_alpha)) (x, y) = getpixel img (x, y)"
    if "x < fst (img_size img)" "y < snd (img_size img)" for x y
    using that assms by (auto simp: remap_getpixel d target_alpha_def intro!: remapped_same)
  with d show ?thesis by (simp add: remap_size)
qed

theorem all_transparent_unchanged_witness:
  "detect_alpha_modes clear_img = (None, None) \<and>
   img_size (fst (remap clear_img 102 38)) = img_size clear_img \<and>
   getpixel (fst (remap clear_img 102 38)) (1, 1) = getpixel clear_img (1, 1)"
proof -
  have h: "\<forall>x < fst (img_size clear_img). \<forall>y < snd (img_size clear_img).
      alpha_of (getpixel clear_img (x, y)) = 0"
    by (simp add: clear_img_def alpha_of_def)
  have r: "(1 :: nat) < fst (img_size clear_img)" "(1 :: nat) < snd (img_size clear_img)"
    by (simp_all add: clear_img_def)
  from all_transparent_unchanged [OF h, of 102 38] r show ?thesis by blast
qed

text \<open>
  C9. The detector is a function of the image: two runs on images of the same size with
  the same pixels inside their bounds return the same modes. Nothing else (values
  outside the bounds, earlier runs) enters the result.
\<close>

theorem detect_deterministic:
  assumes "img_size img1 = img_size img2"
    and "\<forall>x < fst (img_size img1). \<forall>y < snd (img_size img1).
           getpixel img1 (x, y) = getpixel img2 (x, y)"
  shows "detect_alpha_modes img1 = detect_alpha_modes img2"
proof -
  have c: "coords img1 = coords img2" by (simp add: coords_def assms(1))
  have "alpha_count img1 i = alpha_count img2 i" for i
    unfolding alpha_count_def c
    by (rule arg_cong [where f = length], rule filter_cong [OF refl])
       (use assms in \<open>auto simp: set_coords\<close>)
  then have ac: "alpha_count img1 = alpha_count img2" by (rule ext)
  then have "nonzero_alphas img1 = nonzero_alphas img2" and "mode_key img1 = mode_key img2"
    by (simp_all add: nonzero_alphas_def mode_key_def [abs_def])
  then show ?thesis by (simp add: detect_alpha_modes_cases)
qed

theorem detect_deterministic_witness:
  "img_size padded_img = img_size scenario_img \<and>
   getpixel padded_img (5, 5) \<noteq> getpixel scenario_img (5, 5) \<and>
   detect_alpha_modes padded_img = detect_alpha_modes scenario_img"
proof -
  have s: "img_size padded_img = img_size scenario_img"
    by (simp add: padded_img_def scenario_img_def)
  have p: "\<forall>x < fst (img_size padded_img). \<forall>y < snd (img_size padded_img).
      getpixel padded_img (x, y) = getpixel scenario_img (x, y)"
    by (auto simp: padded_img_def scenario_img_def)
  have n: "getpixel padded_img (5, 5) \<noteq> getpixel scenario_img (5, 5)"
    by (simp add: padded_img_def scenario_img_def)
  have "detect_alpha_modes padded_img = detect_alpha_modes scenario_img"
    by (rule detect_deterministic [OF s p])
  with s n show ?thesis by (intro conjI)
qed

text \<open>
  C10. A mode that the detector returns is an alpha value between 1 and 255 whose
  histogram count is positive and that some pixel of the image has; when both modes are
  returned, the high mode is strictly greater than the low mode.
\<close>

theorem detected_modes_occur:
  "(detect_alpha_modes img = (Some m, low_mode) \<or> detect_alpha_modes img = (high_mode, Some m) \<longrightarrow>
      1 \<le> m \<and> m \<le> 255 \<and> 0 < build_hist img ! m \<and>
      (\<exists>x < fst (img_size img). \<exists>y < snd (img_size img).
         unat (alpha_of (getpixel img (x, y))) = m)) \<and>
   (detect_alpha_modes img = (Some h, Some l) \<longrightarrow> l < h)"
proof -
  have one: "1 \<le> m \<and> m \<le> 255 \<and> 0 < build_hist img ! m \<and>
      (\<exists>x < fst (img_size img). \<exists>y < snd (img_size img).
         unat (alpha_of (getpixel img (x, y))) = m)"
    if "detect_alpha_modes img = (Some m, low_mode) \<or> detect_alpha_modes img = (high_mode, Some m)"
  proof -
    from that have m: "m \<in> set (nonzero_alphas img)"
      using detect_modes_sound [where img = img and hm = m and lm = low_mode
          and hm' = high_mode and l = m]
      by auto
    then have r: "0 < m" "m < 256" "0 < alpha_count img m" by (simp_all add: set_nonzero_alphas)
    then have "0 < build_hist img ! m" by (simp add: build_hist_nth(2))
    moreover from r(3) have "\<exists>x < fst (img_size img). \<exists>y < snd (img_size img).
         unat (alpha_of (getpixel img (x, y))) = m"
      by (auto simp: alpha_count_pos)
    ultimately show ?thesis using r by simp
  qed
  have two: "l < h" if "detect_alpha_modes img = (Some h, Some l)"
    using that detect_modes_sound [where img = img and hm' = "Some h" and l = l] by auto
  from one two show ?thesis by blast
qed

theorem detected_modes_occur_witness:
  "detect_alpha_modes scenario_img = (Some 102, Some 38) \<and> (38 :: nat) < 102 \<and>
   0 < build_hist scenario_img ! 102"
proof -
  have d: "detect_alpha_modes scenario_img = (Some 102, Some 38)" by code_simp
  have "(38 :: nat) < 102"
    by (rule mp [OF conjunct2 [OF detected_modes_occur] d])
  moreover have "0 < build_hist scenario_img ! 102"
    using mp [OF conjunct1 [OF detected_modes_occur [of scenario_img 102 "Some 38"]]] d by blast
  ultimately show ?thesis using d by (intro conjI)
qed

subsection \<open>The batch driver\<close>

lemma transform_image_Inr:
  assumes "transform_image fs in_path out_path oa ta w = Inr w'"
  shows "opened w' = opened w @ [in_path]" and "open_rgba fs in_path \<noteq> None"
    and "length (saved w') = length (saved w) + 1"
  using assms
  by (auto simp: transform_image_def ensure_dir_def Let_def
           split: option.splits prod.splits sum.splits if_splits)

lemma transform_image_saves_remap:
  assumes "transform_image fs in_path out_path oa ta w = Inr w'"
  shows "\<exists>img. open_rgba fs in_path = Some img \<and>
           saved w' = saved w @ [(out_path, fst (remap img oa ta))] \<and>
           printed w' = printed w @
             [Processed in_path out_path (snd (remap img oa ta))
                (fst (detect_alpha_modes img)) (snd (detect_alpha_modes img)) (min oa ta)]"
  using assms
  by (auto simp: transform_image_def ensure_dir_def remap_def Let_def
           split: option.splits prod.splits sum.splits if_splits)

lemma transform_image_Inl:
  assumes "transform_image fs in_path out_path oa ta w = Inl (e, w')"
  shows "opened w' = opened w @ [in_path]"
    and "(\<exists>p. e = OpenError p) \<longrightarrow> e = OpenError in_path \<and> open_rgba fs in_path = None"
    and "(\<forall>p. e \<noteq> OpenError p) \<longrightarrow> open_rgba fs in_path \<noteq> None"
  using assms
  by (auto simp: transform_image_def ensure_dir_def Let_def
           split: option.splits prod.splits sum.splits if_splits)

lemma transform_image_halts:
  assumes "readable fs (opened w)"
  shows "halts_at_unreadable fs (transform_image fs in_path out_path oa ta w)"
proof (cases "transform_image fs in_path out_path oa ta w")
  case (Inr w')
  from transform_image_Inr(1,2) [OF Inr] assms show ?thesis
    by (auto simp: halts_at_unreadable_def readable_def Inr)
next
  case (Inl ew)
  obtain e w' where ew: "ew = (e, w')" by (cases ew)
  from transform_image_Inl [OF Inl [unfolded ew]] assms show ?thesis
    by (cases e) (auto simp: halts_at_unreadable_def readable_def Inl ew)
qed

lemma halts_at_unreadable_Inr:
  "halts_at_unreadable fs (Inr w) \<longleftrightarrow> readable fs (opened w)"
  by (simp add: halts_at_unreadable_def)

lemma folder_loop_halts:
  assumes "readable fs (opened w)"
  shows "halts_at_unreadable fs (map_sum id snd (folder_loop fs in_dir out_dir oa ta names c w))"
  using assms
proof (induction names arbitrary: c w)
  case Nil
  then show ?case by (simp add: halts_at_unreadable_Inr)
next
  case (Cons name names)
  show ?case
  proof (cases "endswith (lower name) ''.png''")
    case False
    with Cons show ?thesis by simp
  next
    case True
    let ?t = "transform_image fs (path_join in_dir name) (path_join out_dir name) oa ta w"
    have h: "halts_at_unreadable fs ?t" by (rule transform_image_halts [OF Cons.prems])
    show ?thesis
    proof (cases ?t)
      case (Inl ew)
      with h True show ?thesis by simp
    next
      case (Inr w')
      with h have "readable fs (opened w')" by (simp add: halts_at_unreadable_Inr)
      from Cons.IH [OF this] True Inr show ?thesis by simp
    qed
  qed
qed

lemma process_folder_halts:
  assumes "readable fs (opened w)"
  shows "halts_at_unreadable fs (map_sum id snd (process_folder fs in_dir out_dir oa ta w))"
proof -
  have "readable fs (opened (w\<lparr>made_dirs := made_dirs w @ [out_dir]\<rparr>))"
    using assms by simp
  from folder_loop_halts [OF this] assms show ?thesis
    by (auto simp: process_folder_def ensure_dir_def halts_at_unreadable_def)
qed

lemma process_folder_Inr_readable:
  assumes "readable fs (opened w)" and "process_folder fs in_dir out_dir oa ta w = Inr (n, w')"
  shows "readable fs (opened w')"
  using process_folder_halts [OF assms(1), of in_dir out_dir oa ta] assms(2)
  by (simp add: halts_at_unreadable_Inr)





subsection \<open>The running total\<close>

lemma folder_loop_count:
  assumes "folder_loop fs in_dir out_dir oa ta names c w = Inr (n, w')"
  shows "n = c + length (filter (\<lambda>name. endswith (lower name) ''.png'') names) \<and>
         opened w' = opened w @
           map (path_join in_dir) (filter (\<lambda>name. endswith (lower name) ''.png'') names) \<and>
         length (saved w') + c = length (saved w) + n"
  using assms
proof (induction names arbitrary: c w)
  case Nil
  then show ?case by simp
next
  case (Cons name names)
  show ?case
  proof (cases "endswith (lower name) ''.png''")
    case False
    with Cons.prems have "folder_loop fs in_dir out_dir oa ta names c w = Inr (n, w')" by simp
    from Cons.IH [OF this] False show ?thesis by simp
  next
    case True
    let ?t = "transform_image fs (path_join in_dir name) (path_join out_dir name) oa ta w"
    from Cons.prems True obtain w1 where t: "?t = Inr w1"
      and l: "folder_loop fs in_dir out_dir oa ta names (c + 1) w1 = Inr (n, w')"
      by (cases ?t) auto
    from Cons.IH [OF l] transform_image_Inr(1,3) [OF t] True show ?thesis by simp
  qed
qed

lemma process_folder_count:
  assumes "process_folder fs in_dir out_dir oa ta w = Inr (n, w')"
  shows "n = length (folder_inputs fs in_dir) \<and>
         opened w' = opened w @ folder_inputs fs in_dir \<and>
         length (saved w') = length (saved w) + n"
proof (cases "isdir fs in_dir")
  case False
  with assms show ?thesis by (auto simp: process_folder_def folder_inputs_def)
next
  case True
  with assms have l: "folder_loop fs in_dir out_dir oa ta (listdir fs in_dir) 0
                     (w\<lparr>made_dirs := made_dirs w @ [out_dir]\<rparr>) = Inr (n, w')"
    by (auto simp: process_folder_def ensure_dir_def split: if_splits)
  from folder_loop_count [OF l] True show ?thesis by (simp add: folder_inputs_def)
qed

lemma main_loop_count:
  assumes "main_loop fs root vs t w = Inr (t', w')"
  shows "length (saved w') + t = length (saved w) + t' \<and>
         length (opened w') + t = length (opened w) + t'"
  using assms
proof (induction vs arbitrary: t w)
  case Nil
  then show ?case by simp
next
  case (Cons v vs)
  let ?p1 = "process_folder fs (EDGES_IN root) (edges_out_dir root (tag v)) (v_oa v) (v_ta v) w"
  from Cons.prems obtain n1 w1 where p1: "?p1 = Inr (n1, w1)"
    by (cases ?p1) auto
  let ?p2 = "process_folder fs (CORNERS_IN root) (corners_out_dir root (tag v)) (v_oa v) (v_ta v) w1"
  from Cons.prems p1 obtain n2 w2 where p2: "?p2 = Inr (n2, w2)"
    by (cases ?p2) auto
  let ?p3 = "process_folder fs (CENTERS_IN root) (centers_out_dir root (tag v)) (v_oa v) (v_ta v) w2"
  from Cons.prems p1 p2 obtain n3 w3 where p3: "?p3 = Inr (n3, w3)"
    by (cases ?p3) auto
  note c1 = process_folder_count [OF p1] and c2 = process_folder_count [OF p2]
    and c3 = process_folder_count [OF p3]
  show ?case
  proof (cases "isfile fs (BORDER_IN root)")
    case False
    with Cons.prems p1 p2 p3
    have "main_loop fs root vs (t + n1 + n2 + n3) w3 = Inr (t', w')" by simp
    from Cons.IH [OF this] c1 c2 c3 show ?thesis by simp
  next
    case True
    let ?t = "transform_image fs (BORDER_IN root) (border_out_path root (tag v))
                (v_oa v) (v_ta v) w3"
    from Cons.prems p1 p2 p3 True obtain w4 where t4: "?t = Inr w4"
      and l: "main_loop fs root vs (t + n1 + n2 + n3 + 1) w4 = Inr (t', w')"
      by (cases ?t) auto
    from Cons.IH [OF l] transform_image_Inr(1,3) [OF t4] c1 c2 c3 show ?thesis by simp
  qed
qed

subsection \<open>The batch as a sequence of units of work\<close>

lemma transform_image_unit:
  "transform_image fs i o' oa ta w = Inr w' \<Longrightarrow>
     unit_error fs (i, o') = None \<and> opened w' = opened w @ [i] \<and>
     map fst (saved w') = map fst (saved w) @ [o']"
  "transform_image fs i o' oa ta w = Inl (e, w') \<Longrightarrow>
     unit_error fs (i, o') = Some e \<and> opened w' = opened w @ [i]"
  by (auto simp: transform_image_def ensure_dir_def unit_error_def Let_def
           split: option.splits prod.splits sum.splits if_splits)

lemma stage_ok_transform_image:
  "stage_ok fs [(i, o')] [] w (transform_image fs i o' oa ta w)"
proof (cases "transform_image fs i o' oa ta w")
  case (Inr w')
  from transform_image_unit(1) [OF Inr] show ?thesis
    by (simp add: stage_ok_def Inr unit_ok_def)
next
  case (Inl ew)
  obtain e w' where ew: "ew = (e, w')" by (cases ew)
  from transform_image_unit(2) [OF Inl [unfolded ew]]
  have "[(i, o')] = [(i, o')] @ [] \<and> opened w' = opened w @ map fst [(i, o')] \<and>
        (\<forall>u \<in> set (butlast [(i, o')]). unit_ok fs u) \<and>
        [(i, o')] \<noteq> [] \<and> unit_error fs (last [(i, o')]) = Some e"
    by simp
  then show ?thesis unfolding stage_ok_def Inl ew by (simp only: sum.case prod.case) blast
qed

lemma stage_ok_Inl_append:
  assumes "stage_ok fs us1 ds1 w (Inl ew)"
  shows "stage_ok fs (us1 @ us2) (ds1 @ ds2) w (Inl ew)"
proof -
  obtain e w' where ew: "ew = (e, w')" by (cases ew)
  from assms obtain pre post where p: "us1 = pre @ post" "opened w' = opened w @ map fst pre"
    "\<forall>u \<in> set (butlast pre). unit_ok fs u"
    "(pre \<noteq> [] \<and> unit_error fs (last pre) = Some e) \<or>
     (\<exists>d \<in> set ds1. e = MakedirsError d \<and> \<not> can_makedirs fs d)"
    by (auto simp: stage_ok_def ew)
  from p(4) have c: "(pre \<noteq> [] \<and> unit_error fs (last pre) = Some e) \<or>
     (\<exists>d \<in> set (ds1 @ ds2). e = MakedirsError d \<and> \<not> can_makedirs fs d)" by auto
  have "us1 @ us2 = pre @ (post @ us2)" by (simp add: p(1))
  with p(2,3) c show ?thesis unfolding stage_ok_def ew by (simp only: sum.case prod.case) blast
qed

lemma stage_ok_seq:
  assumes "stage_ok fs us1 ds1 w (Inr w1)" and "stage_ok fs us2 ds2 w1 r"
  shows "stage_ok fs (us1 @ us2) (ds1 @ ds2) w r"
proof (cases r)
  case (Inr w2)
  with assms show ?thesis by (auto simp: stage_ok_def)
next
  case (Inl ew)
  obtain e w' where ew: "ew = (e, w')" by (cases ew)
  from assms(1) have a: "opened w1 = opened w @ map fst us1" "\<forall>u \<in> set us1. unit_ok fs u"
    by (simp_all add: stage_ok_def)
  from assms(2) obtain pre post where p: "us2 = pre @ post" "opened w' = opened w1 @ map fst pre"
    "\<forall>u \<in> set (butlast pre). unit_ok fs u"
    "(pre \<noteq> [] \<and> unit_error fs (last pre) = Some e) \<or>
     (\<exists>d \<in> set ds2. e = MakedirsError d \<and> \<not> can_makedirs fs d)"
    by (auto simp: stage_ok_def Inl ew)
  have 1: "us1 @ us2 = (us1 @ pre) @ post" by (simp add: p(1))
  have 2: "opened w' = opened w @ map fst (us1 @ pre)" by (simp add: p(2) a(1))
  have 3: "\<forall>u \<in> set (butlast (us1 @ pre)). unit_ok fs u"
    using a(2) p(3) by (auto simp: butlast_append dest: in_set_butlastD)
  have 4: "(us1 @ pre \<noteq> [] \<and> unit_error fs (last (us1 @ pre)) = Some e) \<or>
     (\<exists>d \<in> set (ds1 @ ds2). e = MakedirsError d \<and> \<not> can_makedirs fs d)"
    using p(4) by auto
  from 1 2 3 4 show ?thesis unfolding stage_ok_def Inl ew
    by (simp only: sum.case prod.case) blast
qed

lemma stage_ok_ensure_dir: "stage_ok fs [] [d] w (ensure_dir fs d w)"
  by (auto simp: stage_ok_def ensure_dir_def)

lemma stage_ok_folder_loop:
  "stage_ok fs
     (map (\<lambda>name. (path_join in_dir name, path_join out_dir name))
        (filter (\<lambda>name. endswith (lower name) ''.png'') names)) [] w
     (map_sum id snd (folder_loop fs in_dir out_dir oa ta names c w))"
proof (induction names arbitrary: c w)
  case Nil
  show ?case by (simp add: stage_ok_def)
next
  case (Cons name names)
  show ?case
  proof (cases "endswith (lower name) ''.png''")
    case False
    with Cons show ?thesis by simp
  next
    case True
    let ?t = "transform_image fs (path_join in_dir name) (path_join out_dir name) oa ta w"
    have h: "stage_ok fs [(path_join in_dir name, path_join out_dir name)] [] w ?t"
      by (rule stage_ok_transform_image)
    show ?thesis
    proof (cases ?t)
      case (Inl ew)
      from stage_ok_Inl_append [OF h [unfolded Inl]] True Inl show ?thesis by simp
    next
      case (Inr w1)
      from stage_ok_seq [OF h [unfolded Inr] Cons.IH] True Inr show ?thesis by simp
    qed
  qed
qed

lemma stage_ok_process_folder:
  "stage_ok fs (folder_units fs in_dir out_dir) (folder_dirs fs in_dir out_dir) w
     (map_sum id snd (process_folder fs in_dir out_dir oa ta w))"
proof (cases "isdir fs in_dir")
  case False
  then show ?thesis
    by (simp add: process_folder_def folder_units_def folder_dirs_def stage_ok_def)
next
  case True
  have e: "stage_ok fs [] [out_dir] w (ensure_dir fs out_dir w)" by (rule stage_ok_ensure_dir)
  show ?thesis
  proof (cases "ensure_dir fs out_dir w")
    case (Inl ew)
    from stage_ok_Inl_append [OF e [unfolded Inl]] True Inl show ?thesis
      by (simp add: process_folder_def folder_units_def folder_dirs_def)
  next
    case (Inr w1)
    from stage_ok_seq [OF e [unfolded Inr] stage_ok_folder_loop] True Inr show ?thesis
      by (simp add: process_folder_def folder_units_def folder_dirs_def)
  qed
qed

lemma stage_ok_bind:
  assumes "stage_ok fs us1 ds1 w (map_sum id snd r1)"
    and "\<And>n w1. r1 = Inr (n, w1) \<Longrightarrow> stage_ok fs us2 ds2 w1 (map_sum id snd (k n w1))"
  shows "stage_ok fs (us1 @ us2) (ds1 @ ds2) w
           (map_sum id snd (case r1 of Inl e \<Rightarrow> Inl e | Inr (n, w1) \<Rightarrow> k n w1))"
proof (cases r1)
  case (Inl ew)
  from stage_ok_Inl_append [OF assms(1) [unfolded Inl, simplified]] show ?thesis
    by (simp add: Inl)
next
  case (Inr nw)
  obtain n w1 where nw: "nw = (n, w1)" by (cases nw)
  from stage_ok_seq [OF assms(1) [unfolded Inr nw, simplified] assms(2) [OF Inr [unfolded nw]]]
  show ?thesis by (simp add: Inr nw)
qed

lemma batch_units_Cons:
  "batch_units fs root (v # vs) =
     folder_units fs (EDGES_IN root) (edges_out_dir root (tag v)) @
     folder_units fs (CORNERS_IN root) (corners_out_dir root (tag v)) @
     folder_units fs (CENTERS_IN root) (centers_out_dir root (tag v)) @
     (if isfile fs (BORDER_IN root) then [(BORDER_IN root, border_out_path root (tag v))] else []) @
     batch_units fs root vs"
  by (simp add: batch_units_def variant_units_def)

lemma batch_dirs_Cons:
  "batch_dirs fs root (v # vs) =
     folder_dirs fs (EDGES_IN root) (edges_out_dir root (tag v)) @
     folder_dirs fs (CORNERS_IN root) (corners_out_dir root (tag v)) @
     folder_dirs fs (CENTERS_IN root) (centers_out_dir root (tag v)) @
     batch_dirs fs root vs"
  by (simp add: batch_dirs_def variant_dirs_def)

lemma stage_ok_main_loop:
  "stage_ok fs (batch_units fs root vs) (batch_dirs fs root vs) w
     (map_sum id snd (main_loop fs root vs t w))"
proof (induction vs arbitrary: t w)
  case Nil
  show ?case by (simp add: stage_ok_def batch_units_def batch_dirs_def)
next
  case (Cons v vs)
  have border: "stage_ok fs
      ((if isfile fs (BORDER_IN root) then [(BORDER_IN root, border_out_path root (tag v))] else []) @
       batch_units fs root vs)
      (batch_dirs fs root vs) w3
      (map_sum id snd
        (if isfile fs (BORDER_IN root) then
           (case transform_image fs (BORDER_IN root) (border_out_path root (tag v))
                   (v_oa v) (v_ta v) w3 of
              Inl e \<Rightarrow> Inl e
            | Inr w4 \<Rightarrow> main_loop fs root vs (n + 1) w4)
         else main_loop fs root vs n w3))" for n w3
  proof (cases "isfile fs (BORDER_IN root)")
    case False
    have "stage_ok fs (batch_units fs root vs) (batch_dirs fs root vs) w3
            (map_sum id snd (main_loop fs root vs n w3))"
      by (rule Cons.IH)
    then show ?thesis by (simp only: False if_False append_Nil)
  next
    case True
    let ?t = "transform_image fs (BORDER_IN root) (border_out_path root (tag v))
                (v_oa v) (v_ta v) w3"
    have h: "stage_ok fs [(BORDER_IN root, border_out_path root (tag v))] [] w3 ?t"
      by (rule stage_ok_transform_image)
    show ?thesis
    proof (cases ?t)
      case (Inl ew)
      from stage_ok_Inl_append [OF h [unfolded Inl],
          of "batch_units fs root vs" "batch_dirs fs root vs"] True Inl
      show ?thesis by simp
    next
      case (Inr w4)
      have "stage_ok fs ([(BORDER_IN root, border_out_path root (tag v))] @ batch_units fs root vs)
              ([] @ batch_dirs fs root vs) w3
              (map_sum id snd (main_loop fs root vs (n + 1) w4))"
        by (rule stage_ok_seq [OF h [unfolded Inr] Cons.IH])
      then show ?thesis by (simp only: True if_True Inr sum.case append_Nil)
    qed
  qed
  show ?case
    unfolding batch_units_Cons batch_dirs_Cons main_loop.simps
    by (rule stage_ok_bind [OF stage_ok_process_folder],
        rule stage_ok_bind [OF stage_ok_process_folder],
        rule stage_ok_bind [OF stage_ok_process_folder],
        rule border)
qed

lemma stage_ok_main:
  "stage_ok fs (batch_units fs root vs) (batch_dirs fs root vs) w
     (map_sum id snd (main fs root vs w))"
proof (cases "main_loop fs root vs 0 w")
  case (Inl ew)
  with stage_ok_main_loop [of fs root vs w 0] show ?thesis by (simp add: main_def)
next
  case (Inr tw)
  obtain t w1 where tw: "tw = (t, w1)" by (cases tw)
  from stage_ok_main_loop [of fs root vs w 0] show ?thesis
    by (simp add: main_def Inr tw stage_ok_def)
qed

lemma main_Inr_units:
  assumes "main fs root vs w = Inr (rc, w')"
  shows "opened w' = opened w @ map fst (batch_units fs root vs)"
    and "map fst (saved w') = map fst (saved w) @ map snd (batch_units fs root vs)"
    and "\<forall>u \<in> set (batch_units fs root vs). unit_ok fs u"
    and "\<forall>d \<in> set (batch_dirs fs root vs). can_makedirs fs d"
  using stage_ok_main [of fs root vs w] by (simp_all add: assms stage_ok_def)

lemma main_Inl_units:
  assumes "main fs root vs w = Inl (e, w')"
  shows "\<exists>pre post. batch_units fs root vs = pre @ post \<and> opened w' = opened w @ map fst pre \<and>
           (\<forall>u \<in> set (butlast pre). unit_ok fs u) \<and>
           ((pre \<noteq> [] \<and> unit_error fs (last pre) = Some e) \<or>
            (\<exists>d \<in> set (batch_dirs fs root vs). e = MakedirsError d \<and> \<not> can_makedirs fs d))"
  using stage_ok_main [of fs root vs w] by (simp add: assms stage_ok_def)

lemma main_succeeds:
  assumes "\<forall>u \<in> set (batch_units fs root vs). unit_ok fs u"
    and "\<forall>d \<in> set (batch_dirs fs root vs). can_makedirs fs d"
  shows "\<exists>w'. main fs root vs w = Inr (0, w')"
proof (cases "main fs root vs w")
  case (Inr rw)
  obtain rc w' where rw: "rw = (rc, w')" by (cases rw)
  from Inr rw have "rc = 0"
    by (auto simp: main_def split: sum.splits prod.splits)
  with Inr rw show ?thesis by simp
next
  case (Inl ew)
  obtain e w' where ew: "ew = (e, w')" by (cases ew)
  from main_Inl_units [OF Inl [unfolded ew]] obtain pre post where
    p: "batch_units fs root vs = pre @ post"
    and c: "(pre \<noteq> [] \<and> unit_error fs (last pre) = Some e) \<or>
            (\<exists>d \<in> set (batch_dirs fs root vs). e = MakedirsError d \<and> \<not> can_makedirs fs d)"
    by blast
  from c show ?thesis
  proof
    assume a: "pre \<noteq> [] \<and> unit_error fs (last pre) = Some e"
    then have "last pre \<in> set (batch_units fs root vs)" by (simp add: p)
    with assms(1) a show ?thesis by (auto simp: unit_ok_def)
  next
    assume "\<exists>d \<in> set (batch_dirs fs root vs). e = MakedirsError d \<and> \<not> can_makedirs fs d"
    with assms(2) show ?thesis by blast
  qed
qed



text \<open>
  C8. A missing input folder is skipped: \<open>process_folder\<close> returns normally with count
  0, having only printed the skip line, and the folder contributes no unit of work. A
  folder that is processed returns the number of its \<open>.png\<close> entries, each opened once
  and saved once. The batch goes on after a skipped folder: when \<open>main\<close> returns, it
  returns 0, it has opened and saved exactly the expected files of all variants and of
  all folders that exist, in order, and the total it prints is their number, one for each
  file. And \<open>main\<close> does return, with status 0, whenever every expected unit of work
  can complete and the output directories can be created, whichever folders are missing.
\<close>

theorem missing_folder_skipped_total_counts:
  "(\<not> isdir fs in_dir \<longrightarrow>
      process_folder fs in_dir out_dir opaque_alpha transparent_alpha w =
        Inr (0, w\<lparr>printed := printed w @ [Skip_missing in_dir]\<rparr>) \<and>
      folder_units fs in_dir out_dir = []) \<and>
   (process_folder fs in_dir out_dir opaque_alpha transparent_alpha w = Inr (n, w') \<longrightarrow>
      n = length (folder_inputs fs in_dir) \<and>
      opened w' = opened w @ folder_inputs fs in_dir \<and>
      length (saved w') = length (saved w) + n) \<and>
   (main fs root variants w = Inr (rc, w'') \<longrightarrow>
      rc = 0 \<and>
      last (printed w'') = Done (length (saved w'') - length (saved w)) (length variants) \<and>
      length (opened w'') - length (opened w) = length (saved w'') - length (saved w) \<and>
      opened w'' = opened w @ map fst (batch_units fs root variants) \<and>
      map fst (saved w'') = map fst (saved w) @ map snd (batch_units fs root variants) \<and>
      last (printed w'') = Done (length (batch_units fs root variants)) (length variants)) \<and>
   ((\<forall>u \<in> set (batch_units fs root variants). unit_ok fs u) \<and>
    (\<forall>d \<in> set (batch_dirs fs root variants). can_makedirs fs d) \<longrightarrow>
      (\<exists>w1. main fs root variants w = Inr (0, w1)))"
proof (intro conjI impI)
  assume "\<not> isdir fs in_dir"
  then show "process_folder fs in_dir out_dir opaque_alpha transparent_alpha w =
        Inr (0, w\<lparr>printed := printed w @ [Skip_missing in_dir]\<rparr>)"
    and "folder_units fs in_dir out_dir = []"
    by (simp_all add: process_folder_def folder_units_def)
next
  assume p: "process_folder fs in_dir out_dir opaque_alpha transparent_alpha w = Inr (n, w')"
  from process_folder_count [OF p]
  show "n = length (folder_inputs fs in_dir)"
    and "opened w' = opened w @ folder_inputs fs in_dir"
    and "length (saved w') = length (saved w) + n"
    by simp_all
next
  assume m: "main fs root variants w = Inr (rc, w'')"
  then obtain t w1 where l: "main_loop fs root variants 0 w = Inr (t, w1)"
    and rc: "rc = 0" and w'': "w'' = w1\<lparr>printed := printed w1 @ [Done t (length variants)]\<rparr>"
    by (cases "main_loop fs root variants 0 w") (auto simp: main_def)
  from main_loop_count [OF l] have c: "length (saved w1) = length (saved w) + t"
    "length (opened w1) = length (opened w) + t" by simp_all
  note u = main_Inr_units(1,2) [OF m]
  from arg_cong [OF u(1), of length] c(2) have t: "t = length (batch_units fs root variants)"
    by (simp add: w'')
  show "rc = 0" by (rule rc)
  show "last (printed w'') = Done (length (saved w'') - length (saved w)) (length variants)"
    by (simp add: w'' c)
  show "length (opened w'') - length (opened w) = length (saved w'') - length (saved w)"
    by (simp add: w'' c)
  show "opened w'' = opened w @ map fst (batch_units fs root variants)" by (rule u(1))
  show "map fst (saved w'') = map fst (saved w) @ map snd (batch_units fs root variants)"
    by (rule u(2))
  show "last (printed w'') = Done (length (batch_units fs root variants)) (length variants)"
    by (simp add: w'' t)
next
  assume "(\<forall>u \<in> set (batch_units fs root variants). unit_ok fs u) \<and>
    (\<forall>d \<in> set (batch_dirs fs root variants). can_makedirs fs d)"
  then show "\<exists>w1. main fs root variants w = Inr (0, w1)"
    using main_succeeds [of fs root variants w] by blast
qed

theorem missing_folder_skipped_total_counts_witness:
  "\<not> isdir skip_fs (EDGES_IN ''/mod'') \<and> isdir skip_fs (CORNERS_IN ''/mod'') \<and>
   process_folder skip_fs (EDGES_IN ''/mod'') (edges_out_dir ''/mod'' ''a40_15'') 102 38
       empty_world =
     Inr (0, empty_world\<lparr>printed := printed empty_world @ [Skip_missing (EDGES_IN ''/mod'')]\<rparr>) \<and>
   exit_status (main skip_fs ''/mod'' VARIANTS empty_world) = 0 \<and>
   opened (final_world (main skip_fs ''/mod'' VARIANTS empty_world)) =
     [''/mod/graphics/base/corner/c.png'', ''/mod/graphics/base/corner/c.png'',
      ''/mod/graphics/base/corner/c.png''] \<and>
   last (printed (final_world (main skip_fs ''/mod'' VARIANTS empty_world))) = Done 3 3"
proof -
  have d: "\<not> isdir skip_fs (EDGES_IN ''/mod'')" and c: "isdir skip_fs (CORNERS_IN ''/mod'')"
    by code_simp+
  have s: "process_folder skip_fs (EDGES_IN ''/mod'') (edges_out_dir ''/mod'' ''a40_15'') 102 38
       empty_world =
     Inr (0, empty_world\<lparr>printed := printed empty_world @ [Skip_missing (EDGES_IN ''/mod'')]\<rparr>)"
    using mp [OF conjunct1 [OF missing_folder_skipped_total_counts] d] by (rule conjunct1)
  have ok: "(\<forall>u \<in> set (batch_units skip_fs ''/mod'' VARIANTS). unit_ok skip_fs u) \<and>
    (\<forall>d \<in> set (batch_dirs skip_fs ''/mod'' VARIANTS). can_makedirs skip_fs d)"
    by code_simp
  from mp [OF conjunct2 [OF conjunct2 [OF conjunct2 [OF missing_folder_skipped_total_counts]]] ok]
  obtain w1 where m: "main skip_fs ''/mod'' VARIANTS empty_world = Inr (0, w1)" by blast
  note r = mp [OF conjunct1 [OF conjunct2 [OF conjunct2 [OF missing_folder_skipped_total_counts]]] m]
  note r_opened = r [THEN conjunct2, THEN conjunct2, THEN conjunct2, THEN conjunct1]
  note r_total = r [THEN conjunct2, THEN conjunct2, THEN conjunct2, THEN conjunct2, THEN conjunct2]
  have us: "map fst (batch_units skip_fs ''/mod'' VARIANTS) =
     [''/mod/graphics/base/corner/c.png'', ''/mod/graphics/base/corner/c.png'',
      ''/mod/graphics/base/corner/c.png'']"
    by code_simp
  have len: "length (batch_units skip_fs ''/mod'' VARIANTS) = 3" and lv: "length VARIANTS = 3"
    by code_simp+
  have e: "exit_status (main skip_fs ''/mod'' VARIANTS empty_world) = 0"
    unfolding exit_status_def m by simp
  have o: "opened (final_world (main skip_fs ''/mod'' VARIANTS empty_world)) =
     [''/mod/graphics/base/corner/c.png'', ''/mod/graphics/base/corner/c.png'',
      ''/mod/graphics/base/corner/c.png'']"
    unfolding final_world_def m using r_opened us by (simp add: empty_world_def)
  have l: "last (printed (final_world (main skip_fs ''/mod'' VARIANTS empty_world))) = Done 3 3"
    unfolding final_world_def m using r_total len lv by simp
  from d c s e o l show ?thesis by (intro conjI)
qed

end
